theory Spec2Isabelle
  imports Main "HOL-Library.Word"
begin

unbundle bit_operations_syntax

section \<open>The ustar codec of lib/tar.ts: data\<close>

text \<open>
  A JavaScript string is a sequence of UTF-16 code units and a \<^verbatim>\<open>Uint8Array\<close> a
  sequence of bytes. \<open>str\<close> writes an ASCII literal as a JavaScript string.
\<close>

type_synonym jsstring = "16 word list"
type_synonym bytes = "8 word list"

definition str :: "string \<Rightarrow> jsstring" where
  "str s = map of_char s"

text \<open>
  The messages of the \<^verbatim>\<open>throw new Error(...)\<close> and
  \<^verbatim>\<open>controller.error(...)\<close> sites, and the \<^verbatim>\<open>RangeError\<close> of
  \<^verbatim>\<open>TypedArray.prototype.set\<close> when the source does not fit.
\<close>

datatype error =
    InvalidOptions
  | InvalidSize
  | InvalidPathname256
  | InvalidFilename100
  | InvalidPathnameSplit
  | PreParsedSuffix
  | SizeMismatch
  | RangeError
  | TypeError
  | ChecksumMismatch
  | EndedUnexpectedly
  | UnexpectedByteCount
  | TooSmall
  | InvalidEnding

section \<open>Array and string primitives\<close>

text \<open>
  \<^verbatim>\<open>slice\<close> on strings and typed arrays: a negative index counts from the end,
  every index is clamped to the length.
\<close>

definition rel_index :: "int \<Rightarrow> nat \<Rightarrow> nat" where
  "rel_index k len = (if k < 0 then nat (max (int len + k) 0) else min (nat k) len)"

definition slice :: "'a list \<Rightarrow> int \<Rightarrow> int \<Rightarrow> 'a list" where
  "slice xs a b =
     (let s = rel_index a (length xs); e = rel_index b (length xs)
      in take (e - s) (drop s xs))"

definition slice_from :: "'a list \<Rightarrow> int \<Rightarrow> 'a list" where
  "slice_from xs a = drop (rel_index a (length xs)) xs"

fun firstIndex :: "'a list \<Rightarrow> 'a \<Rightarrow> int" where
  "firstIndex [] x = -1"
| "firstIndex (y # ys) x =
     (if y = x then 0 else (let r = firstIndex ys x in if r < 0 then -1 else r + 1))"

fun lastIndex :: "'a list \<Rightarrow> 'a \<Rightarrow> int" where
  "lastIndex [] x = -1"
| "lastIndex (y # ys) x =
     (let r = lastIndex ys x in if 0 \<le> r then r + 1 else if y = x then 0 else -1)"

text \<open>\<^verbatim>\<open>indexOf(x, from)\<close> and \<^verbatim>\<open>lastIndexOf(x, from)\<close>; the search of
  \<^verbatim>\<open>lastIndexOf\<close> starts at \<open>from\<close> itself and runs backwards.\<close>

definition indexOf :: "'a list \<Rightarrow> 'a \<Rightarrow> int \<Rightarrow> int" where
  "indexOf xs x k =
     (let n = int (length xs); k' = (if 0 \<le> k then k else max (n + k) 0)
      in if n \<le> k' then -1
         else (let r = firstIndex (drop (nat k') xs) x in if r < 0 then -1 else r + k'))"

definition lastIndexOf :: "'a list \<Rightarrow> 'a \<Rightarrow> int \<Rightarrow> int" where
  "lastIndexOf xs x k =
     (let n = int (length xs); k' = (if 0 \<le> k then min k (n - 1) else n + k)
      in if k' < 0 then -1 else lastIndex (take (nat (k' + 1)) xs) x)"

text \<open>\<^verbatim>\<open>s.split('/')\<close>, \<^verbatim>\<open>xs.join('/')\<close>, \<^verbatim>\<open>s.startsWith(p)\<close>.\<close>

fun split_on :: "'a \<Rightarrow> 'a list \<Rightarrow> 'a list list" where
  "split_on sep [] = [[]]"
| "split_on sep (c # cs) =
     (if c = sep then [] # split_on sep cs
      else (case split_on sep cs of [] \<Rightarrow> [[c]] | seg # segs \<Rightarrow> (c # seg) # segs))"

fun join_with :: "'a \<Rightarrow> 'a list list \<Rightarrow> 'a list" where
  "join_with sep [] = []"
| "join_with sep [seg] = seg"
| "join_with sep (seg # segs) = seg @ sep # join_with sep segs"

definition startsWith :: "'a list \<Rightarrow> 'a list \<Rightarrow> bool" where
  "startsWith s p = (take (length p) s = p)"

text \<open>
  \<^verbatim>\<open>new TextEncoder().encode(s)\<close>: UTF-8 of the code points of \<open>s\<close>, a surrogate
  pair being one code point and a lone surrogate being replaced by U+FFFD.
\<close>

definition utf8_3 :: "16 word \<Rightarrow> bytes" where
  "utf8_3 c = [0xE0 OR ucast (drop_bit 12 c),
               0x80 OR ucast (drop_bit 6 c AND 0x3F),
               0x80 OR ucast (c AND 0x3F)]"

definition utf8_4 :: "16 word \<Rightarrow> 16 word \<Rightarrow> bytes" where
  "utf8_4 hi lo =
     (let cp = (0x10000 + push_bit 10 (ucast (hi - 0xD800)) + ucast (lo - 0xDC00) :: 32 word)
      in [0xF0 OR ucast (drop_bit 18 cp),
          0x80 OR ucast (drop_bit 12 cp AND 0x3F),
          0x80 OR ucast (drop_bit 6 cp AND 0x3F),
          0x80 OR ucast (cp AND 0x3F)])"

fun encode :: "jsstring \<Rightarrow> bytes" where
  "encode [] = []"
| "encode (c # cs) =
     (if c < 0x80 then ucast c # encode cs
      else if c < 0x800 then
        [0xC0 OR ucast (drop_bit 6 c), 0x80 OR ucast (c AND 0x3F)] @ encode cs
      else if 0xD800 \<le> c \<and> c < 0xDC00 then
        (case cs of
           [] \<Rightarrow> [0xEF, 0xBF, 0xBD]
         | d # ds \<Rightarrow>
             if 0xDC00 \<le> d \<and> d < 0xE000 then utf8_4 c d @ encode ds
             else [0xEF, 0xBF, 0xBD] @ encode cs)
      else if 0xDC00 \<le> c \<and> c < 0xE000 then [0xEF, 0xBF, 0xBD] @ encode cs
      else utf8_3 c @ encode cs)"

section \<open>The pathname splitter\<close>

text \<open>
  \<^verbatim>\<open>pathname.split('/').filter((x) => x).join('/')\<close>, the leading
  \<^verbatim>\<open>./\<close> and the trailing slash of a directory.
\<close>

definition normalize :: "jsstring \<Rightarrow> bool \<Rightarrow> jsstring" where
  "normalize pathname isDirectory =
     (let p1 = join_with 47 (filter (\<lambda>x. x \<noteq> []) (split_on 47 pathname));
          p2 = (if startsWith p1 (str ''./'') then slice_from p1 2 else p1)
      in if isDirectory then p2 @ str ''/'' else p2)"

text \<open>
  The \<^verbatim>\<open>for (; i > 0; --i)\<close> loop of \<^verbatim>\<open>parsePathname\<close>. The result is
  the value of \<open>i\<close> when the loop is left, \<open>None\<close> when it is never left.
\<close>

partial_function (option) scan :: "bytes \<Rightarrow> int \<Rightarrow> int option" where
  "scan name i =
     (if 0 < i then
        (let i1 = lastIndexOf name 47 i + 1
         in if 100 < length (slice_from name (i1 + 1))
            then Some (max 0 (indexOf name 47 (i1 + 1)))
            else scan name (i1 - 1))
      else Some i)"

declare scan.simps [code]

text \<open>
  \<^verbatim>\<open>parsePathname(pathname, isDirectory)\<close>: \<open>None\<close> when the call does not
  return, \<open>Some (Inl e)\<close> when it throws, \<open>Some (Inr (prefix, name))\<close> otherwise.
\<close>

definition parsePathname :: "jsstring \<Rightarrow> bool \<Rightarrow> (error + bytes \<times> bytes) option" where
  "parsePathname pathname isDirectory =
     (let p = normalize pathname isDirectory;
          name = encode p
      in if length name \<le> 100 then Some (Inr ([], name))
         else if 256 < length name then Some (Inl InvalidPathname256)
         else (let i = max 0 (lastIndex name 47)
               in if 100 < length (slice_from p (i + 1)) then Some (Inl InvalidFilename100)
                  else (case scan name i of
                          None \<Rightarrow> None
                        | Some j \<Rightarrow>
                            (let prefix = slice name 0 j
                             in if 155 < length prefix then Some (Inl InvalidPathnameSplit)
                                else Some (Inr (prefix, slice_from name (j + 1)))))))"


section \<open>Numbers and text\<close>

text \<open>
  A JavaScript number as far as the codec uses it: an integer, an infinity or
  \<^verbatim>\<open>NaN\<close>. Numbers with a fractional part are outside the model, and an integer
  is taken as exact (sizes and sums stay far below \<open>2 ^ 53\<close>).
\<close>

datatype jsnum = NaN | PosInf | NegInf | Num int

fun num_less :: "jsnum \<Rightarrow> jsnum \<Rightarrow> bool" where
  "num_less NaN _ = False"
| "num_less _ NaN = False"
| "num_less (Num a) (Num b) = (a < b)"
| "num_less NegInf NegInf = False"
| "num_less NegInf _ = True"
| "num_less _ PosInf = True"
| "num_less _ _ = False"

text \<open>\<^verbatim>\<open>n.toString(8)\<close>.\<close>

function octal_digits :: "nat \<Rightarrow> jsstring" where
  "octal_digits n =
     (if n < 8 then [48 + of_nat n] else octal_digits (n div 8) @ [48 + of_nat (n mod 8)])"
  by pat_completeness auto
termination
  by (relation "measure id") auto

declare octal_digits.simps [simp del]

definition toString8 :: "jsnum \<Rightarrow> jsstring" where
  "toString8 x =
     (case x of
        NaN \<Rightarrow> str ''NaN''
      | PosInf \<Rightarrow> str ''Infinity''
      | NegInf \<Rightarrow> str ''-Infinity''
      | Num n \<Rightarrow> if n < 0 then 45 # octal_digits (nat (- n)) else octal_digits (nat n))"

definition padStart :: "nat \<Rightarrow> 'a \<Rightarrow> 'a list \<Rightarrow> 'a list" where
  "padStart n c s = replicate (n - length s) c @ s"

definition padEnd :: "nat \<Rightarrow> 'a \<Rightarrow> 'a list \<Rightarrow> 'a list" where
  "padEnd n c s = s @ replicate (n - length s) c"

text \<open>
  \<^verbatim>\<open>new TextDecoder().decode(bytes)\<close>: the UTF-8 decoder of the Encoding standard.
  \<open>needed\<close> counts the continuation bytes still expected, \<open>lo\<close> and \<open>hi\<close> bound the
  next one; a byte that does not fit yields U+FFFD and is read again as a first byte.
  A leading byte order mark is dropped.
\<close>

definition utf16 :: "32 word \<Rightarrow> jsstring" where
  "utf16 cp =
     (if cp < 0x10000 then [ucast cp]
      else [0xD800 + ucast (drop_bit 10 (cp - 0x10000)),
            0xDC00 + ucast ((cp - 0x10000) AND 0x3FF)])"

fun utf8_dec :: "nat \<Rightarrow> 32 word \<Rightarrow> 8 word \<Rightarrow> 8 word \<Rightarrow> bytes \<Rightarrow> jsstring" where
  "utf8_dec needed cp lo hi [] = (if needed = 0 then [] else [0xFFFD])"
| "utf8_dec needed cp lo hi (b # bs) =
     (if needed = 0 then
        (if b < 0x80 then ucast b # utf8_dec 0 0 0x80 0xBF bs
         else if 0xC2 \<le> b \<and> b \<le> 0xDF then utf8_dec 1 (ucast (b AND 0x1F)) 0x80 0xBF bs
         else if 0xE0 \<le> b \<and> b \<le> 0xEF then
           utf8_dec 2 (ucast (b AND 0xF))
             (if b = 0xE0 then 0xA0 else 0x80) (if b = 0xED then 0x9F else 0xBF) bs
         else if 0xF0 \<le> b \<and> b \<le> 0xF4 then
           utf8_dec 3 (ucast (b AND 7))
             (if b = 0xF0 then 0x90 else 0x80) (if b = 0xF4 then 0x8F else 0xBF) bs
         else 0xFFFD # utf8_dec 0 0 0x80 0xBF bs)
      else if b < lo \<or> hi < b then 0xFFFD # utf8_dec 0 0 0x80 0xBF (b # bs)
      else
        (let cp' = push_bit 6 cp OR ucast (b AND 0x3F)
         in if needed = 1 then utf16 cp' @ utf8_dec 0 0 0x80 0xBF bs
            else utf8_dec (needed - 1) cp' 0x80 0xBF bs))"

definition decode :: "bytes \<Rightarrow> jsstring" where
  "decode bs =
     utf8_dec 0 0 0x80 0xBF (if take 3 bs = [0xEF, 0xBB, 0xBF] then drop 3 bs else bs)"

text \<open>
  \<^verbatim>\<open>parseInt(s, 8)\<close>: leading white space is skipped, a sign is read, then the
  longest run of octal digits; without a digit the result is \<^verbatim>\<open>NaN\<close>.
  \<^verbatim>\<open>s.trimEnd()\<close> removes the same white space from the end.
\<close>

definition is_whitespace :: "16 word \<Rightarrow> bool" where
  "is_whitespace c =
     (c \<in> {0x9, 0xA, 0xB, 0xC, 0xD, 0x20, 0xA0, 0x1680, 0x2028, 0x2029, 0x202F, 0x205F,
            0x3000, 0xFEFF} \<or> (0x2000 \<le> c \<and> c \<le> 0x200A))"

definition is_octal :: "16 word \<Rightarrow> bool" where
  "is_octal c = (48 \<le> c \<and> c \<le> 55)"

definition octal_value :: "jsstring \<Rightarrow> int" where
  "octal_value ds = foldl (\<lambda>acc d. 8 * acc + (uint d - 48)) 0 ds"

definition parseInt8 :: "jsstring \<Rightarrow> jsnum" where
  "parseInt8 s =
     (let t = dropWhile is_whitespace s;
          neg = (t \<noteq> [] \<and> hd t = 45);
          u = (if t \<noteq> [] \<and> (hd t = 45 \<or> hd t = 43) then tl t else t);
          ds = takeWhile is_octal u
      in if ds = [] then NaN else Num ((if neg then -1 else 1) * octal_value ds))"

definition trimEnd :: "jsstring \<Rightarrow> jsstring" where
  "trimEnd s = rev (dropWhile is_whitespace (rev s))"

text \<open>\<^verbatim>\<open>s.replaceAll('\0', '')\<close>.\<close>

definition strip_nul :: "jsstring \<Rightarrow> jsstring" where
  "strip_nul s = filter (\<lambda>c. c \<noteq> 0) s"


section \<open>The encoder's input\<close>

text \<open>
  \<^verbatim>\<open>Partial<TarStreamOptions>\<close>: every field may be absent (\<open>None\<close>).
\<close>

record TarStreamOptions =
  mode :: "jsstring option"
  uid :: "jsstring option"
  gid :: "jsstring option"
  mtime :: "jsnum option"
  uname :: "jsstring option"
  gname :: "jsstring option"
  devmajor :: "jsstring option"
  devminor :: "jsstring option"

text \<open>A pathname is a string or a pair of arrays already split into prefix and name.\<close>

datatype pathname = PathString jsstring | PathParsed bytes bytes

record TarStreamDir =
  pathname :: pathname
  options :: "TarStreamOptions option"

text \<open>
  A file has the fields of a directory and a size, the size extension flag (absent is
  false) and the chunks its iterable yields.
\<close>

record TarStreamFile = TarStreamDir +
  size_bytes :: jsnum
  sizeExtension :: bool
  iterable :: "bytes list"

datatype TarStreamInput = File TarStreamFile | Dir TarStreamDir

fun has_size :: "TarStreamInput \<Rightarrow> bool" where
  "has_size (File f) = True"
| "has_size (Dir d) = False"

fun chunk_pathname :: "TarStreamInput \<Rightarrow> pathname" where
  "chunk_pathname (File f) = pathname f"
| "chunk_pathname (Dir d) = pathname d"

fun chunk_options :: "TarStreamInput \<Rightarrow> TarStreamOptions option" where
  "chunk_options (File f) = options f"
| "chunk_options (Dir d) = options d"

section \<open>Validation of the options\<close>

text \<open>
  The three regular expressions of \<^verbatim>\<open>validTarStreamOptions\<close>:
  \<^verbatim>\<open>/^[0-7+$]/\<close> looks at the first code unit only,
  \<^verbatim>\<open>/^[\x00-\x7F]*$/\<close> at all of them, and
  \<^verbatim>\<open>/^ [0 - 7 + $] /\<close> wants a space, one of \<^verbatim>\<open>0\<close>, space, \<^verbatim>\<open>7\<close>,
  \<^verbatim>\<open>+\<close>, \<^verbatim>\<open>$\<close>, and a space.
\<close>

definition re_octal :: "jsstring \<Rightarrow> bool" where
  "re_octal s = (case s of [] \<Rightarrow> False | c # _ \<Rightarrow> (48 \<le> c \<and> c \<le> 55) \<or> c = 43 \<or> c = 36)"

definition re_ascii :: "jsstring \<Rightarrow> bool" where
  "re_ascii s = list_all (\<lambda>c. c \<le> 0x7F) s"

definition re_devmajor :: "jsstring \<Rightarrow> bool" where
  "re_devmajor s =
     (case s of
        a # b # c # _ \<Rightarrow> a = 32 \<and> (b = 48 \<or> b = 32 \<or> b = 55 \<or> b = 43 \<or> b = 36) \<and> c = 32
      | _ \<Rightarrow> False)"

text \<open>Truthiness of an optional string and of an optional number.\<close>

definition truthy_str :: "jsstring option \<Rightarrow> bool" where
  "truthy_str x = (case x of None \<Rightarrow> False | Some s \<Rightarrow> s \<noteq> [])"

definition truthy_num :: "jsnum option \<Rightarrow> bool" where
  "truthy_num x = (case x of None \<Rightarrow> False | Some n \<Rightarrow> n \<noteq> NaN \<and> n \<noteq> Num 0)"

text \<open>
  \<^verbatim>\<open>validTarStreamOptions(options)\<close>, the disjunction under \<^verbatim>\<open>!!\<close> clause by
  clause; \<^verbatim>\<open>options.mtime.toString() === 'NaN'\<close> holds for \<^verbatim>\<open>NaN\<close> only.
\<close>

definition validTarStreamOptions :: "TarStreamOptions \<Rightarrow> bool" where
  "validTarStreamOptions opts =
     (truthy_str (mode opts) \<and> \<not> re_octal (the (mode opts)) \<or>
      truthy_str (uid opts) \<and> \<not> re_octal (the (uid opts)) \<or>
      truthy_str (gid opts) \<and> \<not> re_octal (the (gid opts)) \<or>
      truthy_num (mtime opts) \<and> mtime opts = Some NaN \<or>
      truthy_str (uname opts) \<and> re_ascii (the (uname opts)) \<or>
      truthy_str (gname opts) \<and> re_ascii (the (gname opts)) \<or>
      truthy_str (devmajor opts) \<and> \<not> re_devmajor (the (devmajor opts)) \<or>
      truthy_str (devminor opts) \<and> \<not> re_octal (the (devminor opts)))"

text \<open>The two guards at the head of the encoder's loop body.\<close>

definition options_rejected :: "TarStreamInput \<Rightarrow> bool" where
  "options_rejected chunk =
     (case chunk_options chunk of None \<Rightarrow> False | Some opts \<Rightarrow> \<not> validTarStreamOptions opts)"

definition size_rejected :: "TarStreamInput \<Rightarrow> bool" where
  "size_rejected chunk =
     (case chunk of
        Dir d \<Rightarrow> False
      | File f \<Rightarrow>
          num_less (size_bytes f) (Num 0) \<or>
          num_less (Num (8 ^ (if sizeExtension f then 12 else 11))) (size_bytes f) \<or>
          size_bytes f = NaN)"


section \<open>The header block\<close>

text \<open>
  \<^verbatim>\<open>dst.set(src, off)\<close> throws a \<^verbatim>\<open>RangeError\<close> when the source does not fit.
\<close>

definition set_at :: "bytes \<Rightarrow> bytes \<Rightarrow> nat \<Rightarrow> error + bytes" where
  "set_at dst src off =
     (if length dst < off + length src then Inl RangeError
      else Inr (take off dst @ src @ drop (off + length src) dst))"

text \<open>\<^verbatim>\<open>chunk.options?.field\<close>.\<close>

definition opt_field :: "(TarStreamOptions \<Rightarrow> 'a option) \<Rightarrow> TarStreamInput \<Rightarrow> 'a option" where
  "opt_field f chunk = (case chunk_options chunk of None \<Rightarrow> None | Some opts \<Rightarrow> f opts)"

definition or_else :: "'a option \<Rightarrow> 'a \<Rightarrow> 'a" where
  "or_else x d = (case x of None \<Rightarrow> d | Some v \<Rightarrow> v)"

definition typeflag_of :: "TarStreamInput \<Rightarrow> jsstring" where
  "typeflag_of chunk = (if has_size chunk then str ''0'' else str ''5'')"

definition size_extension_of :: "TarStreamInput \<Rightarrow> bool" where
  "size_extension_of chunk = (case chunk of File f \<Rightarrow> sizeExtension f | Dir d \<Rightarrow> False)"

text \<open>
  The string the encoder writes at offset 100, field by field; \<open>now_ms\<close> is the value
  of \<^verbatim>\<open>new Date().getTime()\<close>.
\<close>

definition header_fields :: "int \<Rightarrow> TarStreamInput \<Rightarrow> jsstring" where
  "header_fields now_ms chunk =
     padStart 6 48
       (or_else (opt_field mode chunk)
          (if typeflag_of chunk = str ''5'' then str ''755'' else str ''644'')) @ [32, 0] @
     padStart 6 48 (or_else (opt_field uid chunk) []) @ [32, 0] @
     padStart 6 48 (or_else (opt_field gid chunk) []) @ [32, 0] @
     padStart (if size_extension_of chunk then 12 else 11) 48
       (case chunk of File f \<Rightarrow> toString8 (size_bytes f) | Dir d \<Rightarrow> []) @
     (if size_extension_of chunk then [] else [32]) @
     padStart 11 48
       (case opt_field mtime chunk of
          Some m \<Rightarrow> toString8 m
        | None \<Rightarrow> toString8 (Num (now_ms div 1000))) @
     [32] @
     replicate 8 32 @
     typeflag_of chunk @
     replicate 100 0 @
     str ''ustar'' @ [0] @
     str ''00'' @
     padEnd 32 0 (or_else (opt_field uname chunk) []) @
     padEnd 32 0 (or_else (opt_field gname chunk) []) @
     padEnd 8 0 (or_else (opt_field devmajor chunk) []) @
     padEnd 8 0 (or_else (opt_field devminor chunk) [])"

text \<open>\<^verbatim>\<open>header.reduce((x, y) => x + y)\<close>.\<close>

definition byte_sum :: "bytes \<Rightarrow> nat" where
  "byte_sum bs = sum_list (map unat bs)"

text \<open>
  The block before its checksum is written: the name at 0, the text at 100, the prefix
  at 345. The checksum is the sum of the bytes of that block, six octal digits and a
  \<^verbatim>\<open>NUL\<close>, written at 148.
\<close>

definition header_draft :: "int \<Rightarrow> TarStreamInput \<Rightarrow> bytes \<Rightarrow> bytes \<Rightarrow> error + bytes" where
  "header_draft now_ms chunk prefix name =
     (case set_at (replicate 512 0) name 0 of
        Inl e \<Rightarrow> Inl e
      | Inr h1 \<Rightarrow>
     (case set_at h1 (encode (header_fields now_ms chunk)) 100 of
        Inl e \<Rightarrow> Inl e
      | Inr h2 \<Rightarrow> set_at h2 prefix 345))"

definition write_checksum :: "bytes \<Rightarrow> error + bytes" where
  "write_checksum h =
     set_at h (encode (padStart 6 48 (toString8 (Num (int (byte_sum h)))) @ [0])) 148"

definition header_block :: "int \<Rightarrow> TarStreamInput \<Rightarrow> bytes \<Rightarrow> bytes \<Rightarrow> error + bytes" where
  "header_block now_ms chunk prefix name =
     (case header_draft now_ms chunk prefix name of
        Inl e \<Rightarrow> Inl e
      | Inr h \<Rightarrow> write_checksum h)"

section \<open>The encoder\<close>

text \<open>
  What one pass of the generator's loop body does: \<open>Next paths\<close> when it reaches the
  next input with the list of pathnames seen, \<open>Throw e\<close> when it throws, \<open>Hang\<close> when
  it never comes back.
\<close>

datatype 'a step = Next 'a | Throw error | Hang

definition split_pathname :: "TarStreamInput \<Rightarrow> (error + bytes \<times> bytes) option" where
  "split_pathname chunk =
     (case chunk_pathname chunk of
        PathString s \<Rightarrow> parsePathname s (\<not> has_size chunk)
      | PathParsed p n \<Rightarrow>
          if has_size chunk = (n \<noteq> [] \<and> last n = 47) then Some (Inl PreParsedSuffix)
          else Some (Inr (p, n)))"

definition full_pathname :: "bytes \<Rightarrow> bytes \<Rightarrow> jsstring" where
  "full_pathname prefix name =
     (if prefix \<noteq> [] then decode prefix @ str ''/'' @ decode name else decode name)"

definition body_chunks :: "TarStreamFile \<Rightarrow> bytes list \<times> jsstring list step \<Rightarrow> bytes list \<times> jsstring list step" where
  "body_chunks f ok =
     (let n = int (sum_list (map length (iterable f)))
      in if size_bytes f \<noteq> Num n then (iterable f, Throw SizeMismatch)
         else (iterable f @
                 (if n mod 512 \<noteq> 0 then [replicate (nat (512 - n mod 512)) 0] else []) @ fst ok,
               snd ok))"

definition entry :: "int \<Rightarrow> jsstring list \<Rightarrow> TarStreamInput \<Rightarrow> bytes list \<times> jsstring list step" where
  "entry now_ms paths chunk =
     (if options_rejected chunk then ([], Throw InvalidOptions)
      else if size_rejected chunk then ([], Throw InvalidSize)
      else
        (case split_pathname chunk of
           None \<Rightarrow> ([], Hang)
         | Some (Inl e) \<Rightarrow> ([], Throw e)
         | Some (Inr (prefix, name)) \<Rightarrow>
             (let pathname = full_pathname prefix name
              in if pathname \<in> set paths then ([], Next paths)
                 else
                   (case header_block now_ms chunk prefix name of
                      Inl e \<Rightarrow> ([], Throw e)
                    | Inr header \<Rightarrow>
                        (case chunk of
                           Dir d \<Rightarrow> ([header], Next (paths @ [pathname]))
                         | File f \<Rightarrow>
                             (let (out, st) = body_chunks f ([], Next (paths @ [pathname]))
                              in (header # out, st)))))))"

text \<open>
  The generator: the chunks it yields, in order, and how it ends. \<open>clock k\<close> is the
  reading of the clock while input number \<open>k\<close> is processed.
\<close>

datatype outcome = Closed | Errored error | Pending

fun gen :: "(nat \<Rightarrow> int) \<Rightarrow> nat \<Rightarrow> jsstring list \<Rightarrow> TarStreamInput list \<Rightarrow> bytes list \<times> outcome" where
  "gen clock k paths [] = ([replicate 1024 0], Closed)"
| "gen clock k paths (chunk # chunks) =
     (case entry (clock k) paths chunk of
        (out, Throw e) \<Rightarrow> (out, Errored e)
      | (out, Hang) \<Rightarrow> (out, Pending)
      | (out, Next paths') \<Rightarrow>
          (let (rest, st) = gen clock (Suc k) paths' chunks in (out @ rest, st)))"

text \<open>
  The readable side of \<^verbatim>\<open>TarStream\<close> read with a default reader: each pull
  enqueues the next chunk of the generator. The stream is a byte stream
  (\<^verbatim>\<open>type: 'bytes'\<close>), whose \<^verbatim>\<open>controller.enqueue\<close> throws a
  \<^verbatim>\<open>TypeError\<close> on a chunk of length zero, which ends the stream there.
\<close>

definition TarStream :: "(nat \<Rightarrow> int) \<Rightarrow> TarStreamInput list \<Rightarrow> bytes list \<times> outcome" where
  "TarStream clock chunks =
     (let (out, st) = gen clock 0 [] chunks
      in if [] \<in> set out then (takeWhile (\<lambda>c. c \<noteq> []) out, Errored TypeError)
         else (out, st))"

section \<open>The decoder's block source\<close>

text \<open>
  The first transform of \<^verbatim>\<open>UnTarStream\<close> cuts the input into blocks of 512 bytes
  and keeps the rest in \<open>x\<close>; its flush fails when a rest is left. \<open>slicer\<close> gives
  the blocks it enqueues and how it ends.
\<close>

definition blocks_in :: "bytes \<Rightarrow> bytes list" where
  "blocks_in y =
     map (\<lambda>k. slice y (int (512 * k)) (int (512 * k) + 512)) [0 ..< length y div 512]"

definition leftover_of :: "bytes \<Rightarrow> bytes" where
  "leftover_of y =
     (if length y mod 512 \<noteq> 0 then slice_from y (- int (length y mod 512)) else [])"

fun slicer :: "bytes \<Rightarrow> bytes list \<Rightarrow> bytes list \<times> error option" where
  "slicer x [] = ([], if x \<noteq> [] then Some UnexpectedByteCount else None)"
| "slicer x (chunk # chunks) =
     (let y = x @ chunk; (out, e) = slicer (leftover_of y) chunks
      in (blocks_in y @ out, e))"

text \<open>
  The second transform holds the last two blocks back; its flush fails unless there are
  two and all their bytes are zero. An error of the first transform passes through.
  \<open>trimmer\<close> gives the blocks it enqueues and how it ends.
\<close>

fun trimmer :: "bytes list \<Rightarrow> bytes list \<Rightarrow> error option \<Rightarrow> bytes list \<times> error option" where
  "trimmer x [] (Some e) = ([], Some e)"
| "trimmer x [] None =
     ([], if length x < 2 then Some TooSmall
          else if \<not> list_all (list_all (\<lambda>b. b = 0)) x then Some InvalidEnding
          else None)"
| "trimmer x (chunk # chunks) up =
     (let x' = x @ [chunk]
      in if length x' = 3
         then (let (out, e) = trimmer (tl x') chunks up in (hd x' # out, e))
         else trimmer x' chunks up)"

section \<open>Decoding a header\<close>

text \<open>
  The fields of a decoded header carry the prefix \<open>hdr\<close>, the names without it
  being those of the options.
\<close>

record OldStyleFormat =
  hdr_name :: jsstring
  hdr_mode :: jsstring
  hdr_uid :: jsstring
  hdr_gid :: jsstring
  hdr_size :: jsnum
  hdr_mtime :: jsnum
  hdr_checksum :: jsstring
  hdr_typeflag :: jsstring
  hdr_linkname :: jsstring
  hdr_pad :: bytes

record PosixUstarFormat = OldStyleFormat +
  hdr_magic :: jsstring
  hdr_version :: jsstring
  hdr_uname :: jsstring
  hdr_gname :: jsstring
  hdr_devmajor :: jsstring
  hdr_devminor :: jsstring
  hdr_prefix :: jsstring

datatype TarStreamHeader = OldStyle OldStyleFormat | PosixUstar PosixUstarFormat

text \<open>
  The validation of the checksum: the block with eight spaces at 148 is summed and
  compared with the octal number read from the six bytes at 148.
\<close>

definition checksum_fails :: "bytes \<Rightarrow> error + bool" where
  "checksum_fails v =
     (case set_at v (replicate 8 32) 148 of
        Inl e \<Rightarrow> Inl e
      | Inr c \<Rightarrow> Inr (Num (int (byte_sum c)) \<noteq> parseInt8 (decode (slice v 148 (156 - 2)))))"

definition old_style :: "bytes \<Rightarrow> OldStyleFormat" where
  "old_style v =
     \<lparr>hdr_name = strip_nul (decode (slice v 0 100)),
      hdr_mode = decode (slice v 100 (108 - 2)),
      hdr_uid = decode (slice v 108 (116 - 2)),
      hdr_gid = decode (slice v 116 (124 - 2)),
      hdr_size = parseInt8 (trimEnd (decode (slice v 124 136))),
      hdr_mtime = parseInt8 (decode (slice v 136 (148 - 1))),
      hdr_checksum = decode (slice v 148 (156 - 2)),
      hdr_typeflag = (let t = decode (slice v 156 157) in if t = [0] then str ''0'' else t),
      hdr_linkname = strip_nul (decode (slice v 157 257)),
      hdr_pad = slice_from v 257\<rparr>"

definition is_ustar :: "bytes \<Rightarrow> bool" where
  "is_ustar v = (slice v 257 265 = [117, 115, 116, 97, 114, 0, 48, 48])"

definition parse_header :: "bytes \<Rightarrow> error + TarStreamHeader" where
  "parse_header v =
     (case checksum_fails v of
        Inl e \<Rightarrow> Inl e
      | Inr True \<Rightarrow> Inl ChecksumMismatch
      | Inr False \<Rightarrow>
          if is_ustar v then
            Inr (PosixUstar
              (OldStyleFormat.extend ((old_style v)\<lparr>hdr_pad := slice_from v 500\<rparr>)
                (PosixUstarFormat.fields
                  (decode (slice v 257 263))
                  (decode (slice v 263 265))
                  (strip_nul (decode (slice v 265 297)))
                  (strip_nul (decode (slice v 297 329)))
                  (strip_nul (decode (slice v 329 337)))
                  (strip_nul (decode (slice v 337 345)))
                  (strip_nul (decode (slice v 345 500))))))
          else Inr (OldStyle (old_style v)))"

fun header_typeflag :: "TarStreamHeader \<Rightarrow> jsstring" where
  "header_typeflag (OldStyle h) = hdr_typeflag h"
| "header_typeflag (PosixUstar h) = hdr_typeflag h"

fun header_size :: "TarStreamHeader \<Rightarrow> jsnum" where
  "header_size (OldStyle h) = hdr_size h"
| "header_size (PosixUstar h) = hdr_size h"

fun header_pathname :: "TarStreamHeader \<Rightarrow> jsstring" where
  "header_pathname (OldStyle h) = hdr_name h"
| "header_pathname (PosixUstar h) =
     (if hdr_prefix h \<noteq> [] then hdr_prefix h @ str ''/'' else []) @ hdr_name h"

section \<open>The decoder\<close>

text \<open>
  The body stream of an entry, read to its end with a default reader. Each pull with
  \<open>0 < i\<close> reads a block and enqueues it, cut to \<^verbatim>\<open>size % 512\<close> bytes when
  \<open>i\<close> is 1; the pull with \<open>i \<le> 0\<close> clears the decoder's \<^verbatim>\<open>header\<close> and closes.
  The stream is a byte stream (\<^verbatim>\<open>type: 'bytes'\<close>), whose
  \<^verbatim>\<open>controller.enqueue\<close> throws a \<^verbatim>\<open>TypeError\<close> on a chunk of length zero
  (Streams standard, ReadableByteStreamController); the pull then fails with the header
  still set. \<open>released\<close> tells whether \<^verbatim>\<open>header\<close> was cleared.
\<close>

record body_end =
  failure :: "error option"
  released :: bool

fun body_pulls :: "int \<Rightarrow> int \<Rightarrow> bytes list \<Rightarrow> error option \<Rightarrow> bytes list \<times> body_end \<times> bytes list" where
  "body_pulls i sz [] ending =
     (if 0 < i then
        (case ending of
           None \<Rightarrow> ([], \<lparr>failure = Some EndedUnexpectedly, released = True\<rparr>, [])
         | Some e \<Rightarrow> ([], \<lparr>failure = Some e, released = False\<rparr>, []))
      else ([], \<lparr>failure = None, released = True\<rparr>, []))"
| "body_pulls i sz (v # vs) ending =
     (if 0 < i then
        (let c = (if i = 1 then slice v 0 (sz mod 512) else v)
         in if c = [] then ([], \<lparr>failure = Some TypeError, released = False\<rparr>, vs)
            else (let (cs, fin, rest) = body_pulls (i - 1) sz vs ending in (c # cs, fin, rest)))
      else ([], \<lparr>failure = None, released = True\<rparr>, v # vs))"

text \<open>
  \<^verbatim>\<open>Math.ceil(size / 512)\<close>; with \<^verbatim>\<open>NaN\<close> every comparison of \<open>i\<close> is false,
  as it is with 0.
\<close>

definition block_count :: "jsnum \<Rightarrow> int" where
  "block_count s = (case s of Num n \<Rightarrow> - ((- n) div 512) | _ \<Rightarrow> 0)"

definition size_int :: "jsnum \<Rightarrow> int" where
  "size_int s = (case s of Num n \<Rightarrow> n | _ \<Rightarrow> 0)"

record TarStreamEntry =
  entry_pathname :: jsstring
  header :: TarStreamHeader
  readable :: "(bytes list \<times> body_end) option"

text \<open>
  The entries the decoder enqueues, in order, for a consumer that reads each body to
  its end, and how the run of the top level ends: a pull waits while \<^verbatim>\<open>header\<close>
  is set, so after a body that did not clear it the run is pending forever. The blocks
  are those that the reader obtains before the source ends, by its close or by an error.
\<close>

function untar :: "bytes list \<Rightarrow> error option \<Rightarrow> TarStreamEntry list \<times> outcome" where
  "untar [] ending = ([], case ending of None \<Rightarrow> Closed | Some e \<Rightarrow> Errored e)"
| "untar (v # vs) ending =
     (case parse_header v of
        Inl e \<Rightarrow> ([], Errored e)
      | Inr h \<Rightarrow>
          if header_typeflag h = str ''0'' then
            (let r = body_pulls (block_count (header_size h)) (size_int (header_size h)) vs ending;
                 e = \<lparr>entry_pathname = header_pathname h, header = h,
                      readable = Some (fst r, fst (snd r))\<rparr>
             in if released (fst (snd r))
                then (let (es, st) = untar (snd (snd r)) ending in (e # es, st))
                else ([e], Pending))
          else
            (let e = \<lparr>entry_pathname = header_pathname h, header = h, readable = None\<rparr>;
                 (es, st) = untar vs ending
             in (e # es, st)))"
  by pat_completeness auto
termination
proof -
  have rest: "length (snd (snd (body_pulls i sz vs ending))) \<le> length vs"
    for i sz vs ending
  proof (induction vs arbitrary: i)
    case Nil
    show ?case
      by (simp split: option.splits)
  next
    case (Cons v vs)
    show ?case
      using Cons [of "i - 1"] by (simp add: Let_def case_prod_beta)
  qed
  show ?thesis
  proof (relation "measure (\<lambda>(vs, ending). length vs)", goal_cases)
    case 1
    show ?case
      by simp
  next
    case (2 v vs ending h r e)
    then show ?case
      using rest [of "block_count (header_size h)" "size_int (header_size h)" vs ending]
      by simp
  next
    case 3
    then show ?case
      by simp
  qed
qed

text \<open>
  The decoder on the chunks written to it. When a transform fails,
  \<^verbatim>\<open>controller.error\<close> empties the queues of the pipe, and the blocks that the
  decoder had not read yet are lost: it meets the error after the first \<open>passed\<close>
  blocks only, a number that depends on how far the pipe had come. Without an error the
  pipe closes after its last block, and every block arrives.
\<close>

definition UnTarStream :: "nat \<Rightarrow> bytes list \<Rightarrow> TarStreamEntry list \<times> outcome" where
  "UnTarStream passed chunks =
     (let (blocks, e1) = slicer [] chunks;
          (vs, e2) = trimmer [] blocks e1
      in untar (case e2 of None \<Rightarrow> vs | Some e \<Rightarrow> take passed vs) e2)"

section \<open>The decoder as a run of events\<close>

text \<open>
  The decoder's asynchronous code runs in pieces: JavaScript runs a piece of code
  between two \<^verbatim>\<open>await\<close>s without interruption, and between two pieces any other
  pending piece may run. The state below holds the variables the pieces share, and an
  event is one piece: a call of \<^verbatim>\<open>pull\<close> or \<^verbatim>\<open>cancel\<close> by the Streams
  platform up to its first \<^verbatim>\<open>await\<close>, or the code that follows an
  \<^verbatim>\<open>await\<close> once it settles. The platform calls \<^verbatim>\<open>pull\<close> of a stream only
  while the stream is readable and no earlier \<^verbatim>\<open>pull\<close> of it is pending; a call of
  \<^verbatim>\<open>cancel\<close> on a readable stream closes the stream first and then runs the
  \<^verbatim>\<open>cancel\<close> of its source; on a stream that is not readable any more
  \<^verbatim>\<open>enqueue\<close>, \<^verbatim>\<open>respond\<close>, \<^verbatim>\<open>close\<close> and \<^verbatim>\<open>error\<close> leave it as
  it is. Which bytes reach the consumer is not part of this state.
\<close>

datatype stream_state = Readable | StreamClosed | StreamErrored

text \<open>
  Where the \<^verbatim>\<open>pull\<close> of a body stream waits: nowhere, for the read of the default
  branch, or for a read of the loop of the branch with a request buffer (of the given
  length, filled up to the given offset). Where its \<^verbatim>\<open>cancel\<close> waits: not called,
  for the lock, for a read of the drain loop, or returned.
\<close>

datatype pull_pc = PullIdle | PullDefault | PullByob nat nat

datatype cancel_pc = NotCancelled | CancelWaiting | CancelDraining | CancelDone

record body =
  i_left :: int
  body_size :: int
  lock :: bool
  leftover :: bytes
  stream :: stream_state
  pull_at :: pull_pc
  cancel_at :: cancel_pc

datatype top_pc = TopIdle | TopWaiting | TopReading

record decoder =
  current :: "TarStreamHeader option"
  source :: "bytes list"
  source_end :: "error option"
  cancelled :: bool
  top_stream :: stream_state
  top_at :: top_pc
  bodies :: "body list"

definition init :: "bytes list \<Rightarrow> error option \<Rightarrow> decoder" where
  "init vs ending =
     \<lparr>current = None, source = vs, source_end = ending, cancelled = False,
      top_stream = Readable, top_at = TopIdle, bodies = []\<rparr>"

definition new_body :: "TarStreamHeader \<Rightarrow> body" where
  "new_body h =
     \<lparr>i_left = block_count (header_size h), body_size = size_int (header_size h),
      lock = False, leftover = [], stream = Readable, pull_at = PullIdle,
      cancel_at = NotCancelled\<rparr>"

datatype event =
    TopPull
  | TopPoll
  | TopRead
  | TopCancel
  | Pull nat "nat option"
  | PullRead nat
  | Cancel nat
  | CancelPoll nat
  | CancelRead nat

text \<open>
  \<^verbatim>\<open>controller.close()\<close> and \<^verbatim>\<open>controller.error(e)\<close> on a stream.
\<close>

definition closed :: "stream_state \<Rightarrow> stream_state" where
  "closed st = (if st = Readable then StreamClosed else st)"

definition errored :: "stream_state \<Rightarrow> stream_state" where
  "errored st = (if st = Readable then StreamErrored else st)"

text \<open>
  The top level. \<open>TopPull\<close>: the platform calls \<^verbatim>\<open>pull\<close>, which makes its
  first test of \<^verbatim>\<open>while (header != undefined)\<close> and waits, for a timeout or for the
  read. \<open>TopPoll\<close>: the test after a timeout. \<open>TopRead\<close>: \<^verbatim>\<open>reader.read()\<close> settles;
  at the end of the source the stream is closed, on a checksum mismatch it fails, else
  \<^verbatim>\<open>header\<close> is set; for typeflag 0 the body stream is constructed and the entry
  enqueued, for another typeflag the entry is enqueued and \<^verbatim>\<open>header\<close> cleared,
  unless the stream was cancelled and \<^verbatim>\<open>enqueue\<close> throws.
  \<open>TopCancel\<close>: the consumer cancels the stream of entries.
\<close>

definition top_read :: "decoder \<Rightarrow> decoder" where
  "top_read s =
     (case source s of
        [] \<Rightarrow>
          (case source_end s of
             None \<Rightarrow> s\<lparr>top_at := TopIdle, top_stream := closed (top_stream s)\<rparr>
           | Some e \<Rightarrow> s\<lparr>top_at := TopIdle, top_stream := errored (top_stream s)\<rparr>)
      | v # vs \<Rightarrow>
          (case parse_header v of
             Inl e \<Rightarrow>
               s\<lparr>source := vs, top_at := TopIdle, top_stream := errored (top_stream s)\<rparr>
           | Inr h \<Rightarrow>
               if header_typeflag h = str ''0'' then
                 s\<lparr>source := vs, current := Some h, top_at := TopIdle,
                   bodies := bodies s @ [new_body h]\<rparr>
               else if top_stream s = Readable then
                 s\<lparr>source := vs, current := None, top_at := TopIdle\<rparr>
               else s\<lparr>source := vs, current := Some h, top_at := TopIdle\<rparr>))"

text \<open>
  The \<^verbatim>\<open>pull\<close> of a body stream, up to its first read. With \<open>i \<le> 0\<close> it clears
  \<^verbatim>\<open>header\<close>, cancels the reader when the stream of entries was cancelled, and
  closes. Else it takes the lock; with a request buffer shorter than the leftover it
  returns at once, the lock still taken.
\<close>

definition pull_start :: "nat option \<Rightarrow> decoder \<Rightarrow> body \<Rightarrow> decoder \<times> body" where
  "pull_start req s b =
     (if 0 < i_left b then
        (case req of
           None \<Rightarrow> (s, b\<lparr>lock := True, pull_at := PullDefault\<rparr>)
         | Some n \<Rightarrow>
             if n < length (leftover b)
             then (s, b\<lparr>lock := True, leftover := slice_from (leftover b) (int n)\<rparr>)
             else if length (leftover b) < n
             then (s, b\<lparr>lock := True, pull_at := PullByob n (length (leftover b))\<rparr>)
             else (s, b\<lparr>lock := False, leftover := []\<rparr>))
      else
        ((if cancelled s then s\<lparr>current := None, source := [], source_end := None\<rparr>
          else s\<lparr>current := None\<rparr>),
         b\<lparr>stream := StreamClosed\<rparr>))"

text \<open>
  The code after a read of \<^verbatim>\<open>pull\<close>. In the default branch the end of the source
  clears \<^verbatim>\<open>header\<close> and fails the stream, the lock still taken; a block releases
  the lock and is enqueued, cut when \<open>i\<close> is 1, and an empty chunk fails the stream. In
  the loop of the other branch the end of the source clears \<^verbatim>\<open>header\<close>, releases
  the lock and closes; a block is cut when \<open>i\<close> is 1 and copied, and the loop goes on
  while the buffer is not full. A read that fails leaves everything as it is.
\<close>

definition pull_read :: "decoder \<Rightarrow> body \<Rightarrow> decoder \<times> body" where
  "pull_read s b =
     (case source s of
        [] \<Rightarrow>
          (case source_end s of
             Some e \<Rightarrow> (s, b\<lparr>stream := errored (stream b), pull_at := PullIdle\<rparr>)
           | None \<Rightarrow>
               (case pull_at b of
                  PullByob n offset \<Rightarrow>
                    (s\<lparr>current := None\<rparr>,
                     b\<lparr>lock := False, stream := closed (stream b), pull_at := PullIdle\<rparr>)
                | _ \<Rightarrow>
                    (s\<lparr>current := None\<rparr>,
                     b\<lparr>stream := errored (stream b), pull_at := PullIdle\<rparr>)))
      | v # vs \<Rightarrow>
          (let c = (if i_left b = 1 then slice v 0 (body_size b mod 512) else v);
               b' = b\<lparr>i_left := i_left b - 1\<rparr>
           in case pull_at b of
                PullByob n offset \<Rightarrow>
                  if n - offset < length c
                  then (s\<lparr>source := vs\<rparr>,
                        b'\<lparr>lock := False, leftover := slice_from c (int (n - offset)),
                           pull_at := PullIdle\<rparr>)
                  else if offset + length c < n
                  then (s\<lparr>source := vs\<rparr>, b'\<lparr>pull_at := PullByob n (offset + length c)\<rparr>)
                  else (s\<lparr>source := vs\<rparr>,
                        b'\<lparr>lock := False, leftover := [], pull_at := PullIdle\<rparr>)
              | _ \<Rightarrow>
                  (s\<lparr>source := vs\<rparr>,
                   b'\<lparr>lock := False, pull_at := PullIdle,
                      stream := (if c = [] then errored (stream b) else stream b)\<rparr>)))"

text \<open>
  The \<^verbatim>\<open>cancel\<close> of a body stream: one test of \<^verbatim>\<open>while (i-- > 0)\<close>, which
  either goes to the next read or leaves the loop, clears \<^verbatim>\<open>header\<close> in the
  \<^verbatim>\<open>finally\<close> block and returns.
\<close>

definition drain_test :: "decoder \<Rightarrow> body \<Rightarrow> decoder \<times> body" where
  "drain_test s b =
     (if 0 < i_left b
      then (s, b\<lparr>i_left := i_left b - 1, cancel_at := CancelDraining\<rparr>)
      else (s\<lparr>current := None\<rparr>, b\<lparr>i_left := i_left b - 1, cancel_at := CancelDone\<rparr>))"

definition cancel_read :: "decoder \<Rightarrow> body \<Rightarrow> decoder \<times> body" where
  "cancel_read s b =
     (case source s of
        [] \<Rightarrow> (s\<lparr>current := None\<rparr>, b\<lparr>cancel_at := CancelDone\<rparr>)
      | v # vs \<Rightarrow> drain_test (s\<lparr>source := vs\<rparr>) b)"

definition with_body :: "nat \<Rightarrow> decoder \<times> body \<Rightarrow> decoder" where
  "with_body k r = (fst r)\<lparr>bodies := (bodies (fst r))[k := snd r]\<rparr>"

text \<open>
  An event in a state: the next state, or \<open>None\<close> when the event cannot happen there.
  \<open>Cancel k\<close>: the consumer cancels the body stream \<open>k\<close>; the platform closes the
  stream and calls \<^verbatim>\<open>cancel\<close>, which tests \<^verbatim>\<open>while (lock)\<close> and either waits for
  a timeout or goes on to the first test of its drain loop. \<open>CancelPoll k\<close>: the test of
  the lock after a timeout. \<open>CancelRead k\<close>: a read of the drain loop settles.
\<close>

fun fire :: "event \<Rightarrow> decoder \<Rightarrow> decoder option" where
  "fire TopPull s =
     (if top_stream s = Readable \<and> top_at s = TopIdle
      then Some (s\<lparr>top_at := (if current s \<noteq> None then TopWaiting else TopReading)\<rparr>)
      else None)"
| "fire TopPoll s =
     (if top_at s = TopWaiting
      then Some (if current s \<noteq> None then s else s\<lparr>top_at := TopReading\<rparr>)
      else None)"
| "fire TopRead s = (if top_at s = TopReading then Some (top_read s) else None)"
| "fire TopCancel s =
     (if top_stream s = Readable then Some (s\<lparr>cancelled := True, top_stream := StreamClosed\<rparr>)
      else None)"
| "fire (Pull k req) s =
     (if k < length (bodies s) \<and> stream (bodies s ! k) = Readable \<and>
         pull_at (bodies s ! k) = PullIdle \<and> req \<noteq> Some 0
      then Some (with_body k (pull_start req s (bodies s ! k)))
      else None)"
| "fire (PullRead k) s =
     (if k < length (bodies s) \<and> pull_at (bodies s ! k) \<noteq> PullIdle
      then Some (with_body k (pull_read s (bodies s ! k)))
      else None)"
| "fire (Cancel k) s =
     (if k < length (bodies s) \<and> stream (bodies s ! k) = Readable
      then Some (with_body k
             (if lock (bodies s ! k)
              then (s, (bodies s ! k)\<lparr>stream := StreamClosed, cancel_at := CancelWaiting\<rparr>)
              else drain_test s ((bodies s ! k)\<lparr>stream := StreamClosed\<rparr>)))
      else None)"
| "fire (CancelPoll k) s =
     (if k < length (bodies s) \<and> cancel_at (bodies s ! k) = CancelWaiting
      then Some (if lock (bodies s ! k) then s else with_body k (drain_test s (bodies s ! k)))
      else None)"
| "fire (CancelRead k) s =
     (if k < length (bodies s) \<and> cancel_at (bodies s ! k) = CancelDraining
      then Some (with_body k (cancel_read s (bodies s ! k)))
      else None)"

text \<open>A run: the events in order, from a state.\<close>

fun run :: "event list \<Rightarrow> decoder \<Rightarrow> decoder option" where
  "run [] s = Some s"
| "run (e # es) s = (case fire e s of None \<Rightarrow> None | Some s' \<Rightarrow> run es s')"

text \<open>
  A body stream is finished when no piece of its code is pending and it was closed by
  the \<^verbatim>\<open>pull\<close> that found \<open>i \<le> 0\<close>, all its blocks read, or its \<^verbatim>\<open>cancel\<close>
  has returned.
\<close>

definition finished :: "body \<Rightarrow> bool" where
  "finished b =
     (pull_at b = PullIdle \<and>
      (stream b = StreamClosed \<and> cancel_at b = NotCancelled \<and> i_left b \<le> 0 \<or>
       cancel_at b = CancelDone))"

text \<open>
  What holds in every state of a run. For the decoder: while the top level waits for
  the block of the next header, \<^verbatim>\<open>header\<close> is clear. For the body stream number
  \<open>k\<close>: a readable one has not been cancelled and is the newest; a pending
  \<^verbatim>\<open>pull\<close> holds the lock; a \<^verbatim>\<open>cancel\<close> past the lock finds no
  \<^verbatim>\<open>pull\<close> pending; and while the source has blocks left, the stream is finished
  once \<^verbatim>\<open>header\<close> is clear or a newer stream exists.
\<close>

definition body_ok :: "decoder \<Rightarrow> nat \<Rightarrow> body \<Rightarrow> bool" where
  "body_ok s k b =
     ((stream b = Readable \<longrightarrow> cancel_at b = NotCancelled \<and> Suc k = length (bodies s)) \<and>
      (pull_at b \<noteq> PullIdle \<longrightarrow> lock b) \<and>
      (cancel_at b = CancelDraining \<or> cancel_at b = CancelDone \<longrightarrow> pull_at b = PullIdle) \<and>
      (source s \<noteq> [] \<longrightarrow> current s = None \<or> Suc k < length (bodies s) \<longrightarrow> finished b))"

definition exclusive :: "decoder \<Rightarrow> bool" where
  "exclusive s =
     ((top_at s = TopReading \<longrightarrow> current s = None) \<and>
      (\<forall>k<length (bodies s). body_ok s k (bodies s ! k)))"

text \<open>
  What a run shows of the body stream \<open>k\<close>: the number of blocks that the reads of its
  \<^verbatim>\<open>pull\<close>, and the reads of the drain loop of its \<^verbatim>\<open>cancel\<close>, take from the
  source during the events \<open>es\<close> from the state \<open>s\<close>. \<open>blocks_of\<close> is the number of
  blocks of the body, the \<^verbatim>\<open>Math.ceil(size / 512)\<close> that \<open>i\<close> starts from.
\<close>

fun pulled :: "nat \<Rightarrow> event list \<Rightarrow> decoder \<Rightarrow> nat" where
  "pulled k [] s = 0"
| "pulled k (e # es) s =
     (case fire e s of
        None \<Rightarrow> 0
      | Some s' \<Rightarrow>
          (if e = PullRead k then length (source s) - length (source s') else 0) +
          pulled k es s')"

fun drained :: "nat \<Rightarrow> event list \<Rightarrow> decoder \<Rightarrow> nat" where
  "drained k [] s = 0"
| "drained k (e # es) s =
     (case fire e s of
        None \<Rightarrow> 0
      | Some s' \<Rightarrow>
          (if e = CancelRead k then length (source s) - length (source s') else 0) +
          drained k es s')"

definition blocks_of :: "body \<Rightarrow> int" where
  "blocks_of b = - ((- body_size b) div 512)"

text \<open>
  The headers of the files of a run: those that the reads of the top level parse with
  typeflag 0, in order; for each of them the decoder constructs a body stream.
\<close>

definition file_header :: "event \<Rightarrow> decoder \<Rightarrow> TarStreamHeader list" where
  "file_header e s =
     (if e = TopRead then
        (case source s of
           [] \<Rightarrow> []
         | v # vs \<Rightarrow>
             (case parse_header v of
                Inl err \<Rightarrow> []
              | Inr h \<Rightarrow> if header_typeflag h = str ''0'' then [h] else []))
      else [])"

fun files :: "event list \<Rightarrow> decoder \<Rightarrow> TarStreamHeader list" where
  "files [] s = []"
| "files (e # es) s =
     (case fire e s of None \<Rightarrow> [] | Some s' \<Rightarrow> file_header e s @ files es s')"

text \<open>
  The account of \<open>i\<close> for the body stream number \<open>k\<close>, of which the pull has taken
  \<open>p\<close> blocks and the cancel \<open>d\<close>: every block taken has lowered \<open>i\<close> by one, and
  the drain loop lowers it once more, at the test before each read and at the test that
  ends the loop; the loop reads only after a test found \<open>0 < i\<close>, and ends, with blocks
  left in the source, only at a test that found \<open>i \<le> 0\<close>.
\<close>

definition counted :: "decoder \<Rightarrow> nat \<Rightarrow> nat \<Rightarrow> nat \<Rightarrow> bool" where
  "counted s k p d =
     (if k < length (bodies s) then
        (let b = bodies s ! k in
           i_left b =
             blocks_of b - int p - int d -
             (if cancel_at b = CancelDraining \<or> cancel_at b = CancelDone then 1 else 0) \<and>
           (cancel_at b = NotCancelled \<or> cancel_at b = CancelWaiting \<longrightarrow> d = 0) \<and>
           (cancel_at b = CancelDraining \<longrightarrow> 0 \<le> i_left b) \<and>
           (cancel_at b = CancelDone \<and> source s \<noteq> [] \<longrightarrow>
              i_left b < 0 \<and> (0 < d \<longrightarrow> i_left b = - 1)))
      else p = 0 \<and> d = 0)"

section \<open>Properties of the pathname splitter\<close>

text \<open>
  A pass of the loop that starts on a slash at \<open>p\<close> with a short rest sets \<open>i\<close> to
  \<open>p + 1\<close> and the loop's \<^verbatim>\<open>--i\<close> sets it back to \<open>p\<close>: the loop is never left.
\<close>

lemma scan_Some_leaves:
  assumes "scan nm p = Some y"
  shows "\<not> (0 < p \<and> lastIndexOf nm 47 p = p \<and> length (slice_from nm (p + 2)) \<le> 100)"
proof (rule scan.raw_induct
    [where P = "\<lambda>nm i r. \<not> (0 < i \<and> lastIndexOf nm 47 i = i \<and>
                            length (slice_from nm (i + 2)) \<le> 100)",
      OF _ assms], goal_cases)
  case (1 f nm i r)
  show ?case
  proof
    assume a: "0 < i \<and> lastIndexOf nm 47 i = i \<and> length (slice_from nm (i + 2)) \<le> 100"
    then have b: "\<not> 100 < length (slice_from nm (2 + i))"
      by (simp add: add.commute)
    with a 1(2) have "f nm i = Some r"
      by (simp add: Let_def)
    from 1(1)[OF this] a show False
      by simp
  qed
qed

lemma scan_loops:
  assumes "0 < p" "lastIndexOf nm 47 p = p" "length (slice_from nm (p + 2)) \<le> 100"
  shows "scan nm p = None"
  using scan_Some_leaves [of nm p] assms by (cases "scan nm p") auto

text \<open>The two ends of the splitter: a short pathname is the name, a long one is refused.\<close>

lemma parsePathname_short:
  "length (encode (normalize p d)) \<le> 100 \<Longrightarrow>
   parsePathname p d = Some (Inr ([], encode (normalize p d)))"
  by (simp add: parsePathname_def Let_def)

lemma parsePathname_long:
  "256 < length (encode (normalize p d)) \<Longrightarrow>
   parsePathname p d = Some (Inl InvalidPathname256)"
  by (simp add: parsePathname_def Let_def)

text \<open>
  C3. Pathname splitting. The first and the last part of the claim are
  \<open>parsePathname_short\<close> and \<open>parsePathname_long\<close>. The middle part fails: on a
  pathname of 150 bytes, a slash and 90 bytes the call of \<^verbatim>\<open>parsePathname\<close> does
  not return the pair of the 150 bytes and the 90 bytes, it does not return at all.
\<close>

theorem parsePathname_150_90_hangs:
  "parsePathname (replicate 150 97 @ 47 # replicate 90 98) False = None"
proof -
  let ?p = "replicate 150 97 @ 47 # replicate 90 98 :: jsstring"
  let ?b = "replicate 150 97 @ 47 # replicate 90 98 :: bytes"
  have n: "normalize ?p False = ?p"
    by code_simp
  have e: "encode ?p = ?b"
    by code_simp
  have l: "lastIndex ?b 47 = 150"
    by code_simp
  have s: "scan ?b 150 = None"
    by (rule scan_loops; code_simp)
  have f: "\<not> 100 < length (slice_from ?p (150 + 1))"
    by code_simp
  show ?thesis
    unfolding parsePathname_def n e Let_def l using f s by simp
qed

text \<open>
  C9. Termination of the splitter. The claim fails: on the 111 bytes of fifty
  \<^verbatim>\<open>a\<close>, a slash and sixty \<^verbatim>\<open>b\<close> the backward scan of
  \<^verbatim>\<open>parsePathname\<close> runs forever, so the call neither returns nor throws.
\<close>

theorem parsePathname_hangs:
  "parsePathname (replicate 50 97 @ 47 # replicate 60 98) False = None"
proof -
  let ?p = "replicate 50 97 @ 47 # replicate 60 98 :: jsstring"
  let ?b = "replicate 50 97 @ 47 # replicate 60 98 :: bytes"
  have n: "normalize ?p False = ?p"
    by code_simp
  have e: "encode ?p = ?b"
    by code_simp
  have l: "lastIndex ?b 47 = 50"
    by code_simp
  have s: "scan ?b 50 = None"
    by (rule scan_loops; code_simp)
  have f: "\<not> 100 < length (slice_from ?p (50 + 1))"
    by code_simp
  show ?thesis
    unfolding parsePathname_def n e Let_def l using f s by simp
qed


text \<open>
  A name of 101 bytes without a slash is not refused: with no slash the split index is
  0 and \<^verbatim>\<open>name.slice(i + 1)\<close> drops the first byte of the name.
\<close>

lemma parsePathname_101_drops_first_byte:
  "parsePathname (98 # replicate 100 97) False = Some (Inr ([], replicate 100 97))"
proof -
  let ?p = "98 # replicate 100 97 :: jsstring"
  let ?b = "98 # replicate 100 97 :: bytes"
  have n: "normalize ?p False = ?p"
    by code_simp
  have e: "encode ?p = ?b"
    by code_simp
  have l: "lastIndex ?b 47 = -1"
    by code_simp
  have s: "scan ?b 0 = Some 0"
    by (simp add: scan.simps)
  have f: "\<not> 100 < length (slice_from ?p (0 + 1))"
    by code_simp
  show ?thesis
    unfolding parsePathname_def n e Let_def l using f s
    by (simp add: slice_def slice_from_def rel_index_def)
qed

section \<open>Facts about arrays and the header's layout\<close>

lemma slice_nat:
  "a \<le> b \<Longrightarrow> b \<le> length xs \<Longrightarrow> slice xs (int a) (int b) = take (b - a) (drop a xs)"
  by (simp add: slice_def rel_index_def Let_def min_def)

lemma set_at_Inr:
  "off + length src \<le> length dst \<Longrightarrow>
   set_at dst src off = Inr (take off dst @ src @ drop (off + length src) dst)"
  by (simp add: set_at_def)

lemma set_at_InrD:
  "set_at dst src off = Inr r \<Longrightarrow>
   off + length src \<le> length dst \<and> r = take off dst @ src @ drop (off + length src) dst"
  by (auto simp: set_at_def split: if_splits)

lemma set_at_length: "set_at dst src off = Inr r \<Longrightarrow> length r = length dst"
  by (auto dest!: set_at_InrD)

lemma set_at_take: "set_at dst src off = Inr r \<Longrightarrow> k \<le> off \<Longrightarrow> take k r = take k dst"
  by (auto dest!: set_at_InrD simp: min_def)

lemma set_at_drop:
  "set_at dst src off = Inr r \<Longrightarrow> off + length src \<le> k \<Longrightarrow> drop k r = drop k dst"
  by (auto dest!: set_at_InrD)

lemma encode_length_ge: "length s \<le> length (encode s)"
proof (induction s rule: encode.induct)
  case 1
  show ?case by simp
next
  case (2 c cs)
  have u3: "length (utf8_3 c) = 3" by (simp add: utf8_3_def)
  consider (ascii) "c < 0x80"
    | (two) "\<not> c < 0x80" "c < 0x800"
    | (hi) "\<not> c < 0x80" "\<not> c < 0x800" "0xD800 \<le> c \<and> c < 0xDC00"
    | (lo) "\<not> c < 0x80" "\<not> c < 0x800" "\<not> (0xD800 \<le> c \<and> c < 0xDC00)"
        "0xDC00 \<le> c \<and> c < 0xE000"
    | (other) "\<not> c < 0x80" "\<not> c < 0x800" "\<not> (0xD800 \<le> c \<and> c < 0xDC00)"
        "\<not> (0xDC00 \<le> c \<and> c < 0xE000)"
    by blast
  then show ?case
  proof cases
    case ascii
    show ?thesis
      using 2(1) by (simp del: encode.simps add: encode.simps(2) [of c cs] ascii)
  next
    case two
    show ?thesis
      using 2(2) by (simp del: encode.simps add: encode.simps(2) [of c cs] two)
  next
    case hi
    show ?thesis
    proof (cases cs)
      case Nil
      show ?thesis
        by (simp del: encode.simps add: encode.simps(2) [of c "[]"] hi Nil)
    next
      case (Cons d ds)
      show ?thesis
      proof (cases "0xDC00 \<le> d \<and> d < 0xE000")
        case True
        show ?thesis
          using 2(3) [of d ds]
          by (simp del: encode.simps
              add: encode.simps(2) [of c "d # ds"] utf8_4_def Let_def hi Cons True)
      next
        case False
        show ?thesis
          using 2(4) [of d ds]
          by (simp del: encode.simps add: encode.simps(2) [of c "d # ds"] hi Cons False)
      qed
    qed
  next
    case lo
    show ?thesis
      using 2(5) by (simp del: encode.simps add: encode.simps(2) [of c cs] lo)
  next
    case other
    show ?thesis
      using 2(6) u3 by (simp del: encode.simps add: encode.simps(2) [of c cs] other)
  qed
qed

lemma length_padStart: "length (padStart n c s) = max n (length s)"
  by (simp add: padStart_def)

lemma length_padEnd: "length (padEnd n c s) = max n (length s)"
  by (simp add: padEnd_def)

lemma header_fields_length: "245 \<le> length (header_fields now c)"
proof -
  have m: "n \<le> max n k" for n k :: nat
    by simp
  show ?thesis
  proof (cases "size_extension_of c")
    case True
    have "6 + (2 + (6 + (2 + (6 + (2 + (12 + (0 + (11 + (1 + (8 + (1 + (100 + (5 + (1 + (2 +
            (32 + (32 + (8 + 8))))))))))))))))))
          \<le> length (header_fields now c)"
      unfolding header_fields_def length_append length_padStart length_padEnd
      by (intro add_mono m) (simp_all add: typeflag_of_def str_def True)
    then show ?thesis
      by simp
  next
    case False
    have "6 + (2 + (6 + (2 + (6 + (2 + (11 + (1 + (11 + (1 + (8 + (1 + (100 + (5 + (1 + (2 +
            (32 + (32 + (8 + 8))))))))))))))))))
          \<le> length (header_fields now c)"
      unfolding header_fields_def length_append length_padStart length_padEnd
      by (intro add_mono m) (simp_all add: typeflag_of_def str_def False)
    then show ?thesis
      by simp
  qed
qed

lemma header_draft_InrD:
  assumes "header_draft now c p n = Inr h"
  shows "length h = 512" and "take 245 (drop 100 h) = take 245 (encode (header_fields now c))"
proof -
  let ?E = "encode (header_fields now c)"
  from assms obtain h1 h2 where
    h1: "set_at (replicate 512 0) n 0 = Inr h1" and
    h2: "set_at h1 ?E 100 = Inr h2" and
    h3: "set_at h2 p 345 = Inr h"
    by (auto simp: header_draft_def split: sum.splits)
  have l1: "length h1 = 512" using set_at_length [OF h1] by simp
  have l2: "length h2 = 512" using set_at_length [OF h2] l1 by simp
  show "length h = 512" using set_at_length [OF h3] l2 by simp
  have E: "245 \<le> length ?E"
    using header_fields_length [of now c] encode_length_ge [of "header_fields now c"] by linarith
  have a: "take 345 h = take 345 h2"
    by (rule set_at_take [OF h3]) simp
  have "take 245 (drop 100 h) = drop 100 (take 345 h)"
    by (simp add: drop_take)
  also have "\<dots> = drop 100 (take 345 h2)"
    by (simp add: a)
  also have "\<dots> = take 245 (drop 100 h2)"
    by (simp add: drop_take)
  also have "\<dots> = take 245 ?E"
    using set_at_InrD [OF h2] l1 E by simp
  finally show "take 245 (drop 100 h) = take 245 (encode (header_fields now c))" .
qed

lemma digit_word:
  assumes "m < 8"
  shows "(48 + of_nat m :: 16 word) \<in> {48, 49, 50, 51, 52, 53, 54, 55}"
proof -
  from assms have "m \<in> {0, 1, 2, 3, 4, 5, 6, 7}"
    by auto
  then show ?thesis
    by (elim insertE) simp_all
qed

lemma digit_uint:
  assumes "m < 8"
  shows "uint (48 + of_nat m :: 16 word) - 48 = int m"
proof -
  from assms have "m \<in> {0, 1, 2, 3, 4, 5, 6, 7}"
    by auto
  then show ?thesis
    by (elim insertE) simp_all
qed

lemma octal_digits_set: "d \<in> set (octal_digits n) \<Longrightarrow> d \<in> {48, 49, 50, 51, 52, 53, 54, 55}"
proof (induction n rule: octal_digits.induct)
  case (1 n)
  show ?case
  proof (cases "n < 8")
    case True
    with 1(2) digit_word [of n] show ?thesis
      by (simp add: octal_digits.simps [of n])
  next
    case False
    with 1 digit_word [of "n mod 8"] show ?thesis
      by (auto simp: octal_digits.simps [of n])
  qed
qed

lemma octal_value_snoc: "octal_value (ds @ [d]) = 8 * octal_value ds + (uint d - 48)"
  by (simp add: octal_value_def)

lemma octal_value_digits: "octal_value (octal_digits n) = int n"
proof (induction n rule: octal_digits.induct)
  case (1 n)
  show ?case
  proof (cases "n < 8")
    case True
    then show ?thesis
      using digit_uint [of n] by (simp add: octal_digits.simps [of n] octal_value_def)
  next
    case False
    then show ?thesis
      using 1 digit_uint [of "n mod 8"]
      by (simp add: octal_digits.simps [of n] octal_value_snoc) presburger
  qed
qed

lemma octal_digits_length: "n < 8 ^ k \<Longrightarrow> 0 < k \<Longrightarrow> length (octal_digits n) \<le> k"
proof (induction n arbitrary: k rule: octal_digits.induct)
  case (1 n)
  show ?case
  proof (cases "n < 8")
    case True
    with 1(3) show ?thesis
      by (simp add: octal_digits.simps [of n])
  next
    case False
    obtain j where k: "k = Suc j"
      using 1(3) by (cases k) auto
    have j: "0 < j"
      using False 1(2) k by (cases j) auto
    have "n div 8 < 8 ^ j"
      using 1(2) k by (simp add: less_mult_imp_div_less mult.commute)
    from 1(1) [OF False this j] show ?thesis
      using False k by (simp add: octal_digits.simps [of n])
  qed
qed

lemma octal_value_zeros: "octal_value (replicate k 48 @ ds) = octal_value ds"
  by (induction k) (simp_all add: octal_value_def)

lemma byte_bound: "unat (b :: 8 word) \<le> 255"
  using unsigned_less [of b, where 'a = nat] by simp

lemma ucast_ascii_id:
  fixes c :: "16 word"
  assumes "c < 0x80"
  shows "ucast (ucast c :: 8 word) = c"
proof -
  from assms have "unat c < 128"
    by (simp add: word_less_nat_alt)
  then show ?thesis
    by (simp add: word_unat_eq_iff unsigned_ucast_eq take_bit_eq_mod unat_mod)
qed

lemma ucast_ascii_less:
  fixes c :: "16 word"
  assumes "c < 0x80"
  shows "(ucast c :: 8 word) < 0x80"
proof -
  from assms have "unat c < 128"
    by (simp add: word_less_nat_alt)
  then show ?thesis
    by (simp add: word_less_nat_alt unsigned_ucast_eq take_bit_eq_mod)
qed

lemma ucast_byte_id:
  fixes b :: "8 word"
  shows "ucast (ucast b :: 16 word) = b"
  by (rule ucast_up_ucast_id) (simp add: is_up)

lemma ucast_byte_less:
  fixes b :: "8 word"
  assumes "b < 0x80"
  shows "(ucast b :: 16 word) < 0x80"
proof -
  from assms have "unat b < 128"
    by (simp add: word_less_nat_alt)
  then show ?thesis
    by (simp add: word_less_nat_alt unsigned_ucast_eq take_bit_eq_mod)
qed

lemma encode_ascii: "\<forall>c\<in>set s. c < 0x80 \<Longrightarrow> encode s = map ucast s"
  by (induction s) simp_all

lemma utf8_dec_ascii:
  "\<forall>b\<in>set bs. b < 0x80 \<Longrightarrow> utf8_dec 0 0 0x80 0xBF bs = map ucast bs"
  by (induction bs) simp_all

lemma decode_ascii:
  assumes "\<forall>b\<in>set bs. b < 0x80"
  shows "decode bs = map ucast bs"
proof -
  have "take 3 bs \<noteq> [0xEF, 0xBB, 0xBF]"
  proof
    assume t: "take 3 bs = [0xEF, 0xBB, 0xBF]"
    then have "0xEF \<in> set (take 3 bs)"
      by simp
    then have "(0xEF :: 8 word) \<in> set bs"
      by (rule in_set_takeD)
    with assms show False
      by auto
  qed
  then show ?thesis
    using assms by (simp add: decode_def utf8_dec_ascii)
qed

lemma decode_encode_ascii:
  assumes "\<forall>c\<in>set s. c < 0x80"
  shows "decode (encode s) = s"
proof -
  have "\<forall>b\<in>set (map ucast s :: bytes). b < 0x80"
    using assms by (auto simp: ucast_ascii_less)
  then have "decode (map ucast s :: bytes) = map ucast (map ucast s :: bytes)"
    by (rule decode_ascii)
  also have "\<dots> = s"
    using assms by (induction s) (simp_all add: ucast_ascii_id)
  finally show ?thesis
    using assms by (simp add: encode_ascii)
qed

lemma octal_not_whitespace:
  "d \<in> {48, 49, 50, 51, 52, 53, 54, 55} \<Longrightarrow> \<not> is_whitespace d \<and> is_octal d \<and> d \<noteq> 45 \<and> d \<noteq> 43 \<and> d < 0x80"
  by (auto simp: is_whitespace_def is_octal_def)

lemma parseInt8_digits:
  assumes "ds \<noteq> []" "\<forall>d\<in>set ds. d \<in> {48, 49, 50, 51, 52, 53, 54, 55}"
  shows "parseInt8 ds = Num (octal_value ds)"
proof -
  obtain d ds' where ds: "ds = d # ds'"
    using assms(1) by (cases ds) auto
  have d: "\<not> is_whitespace d" "d \<noteq> 45" "d \<noteq> 43"
    using assms(2) octal_not_whitespace [of d] by (auto simp: ds)
  have t: "takeWhile is_octal ds = ds"
    using assms(2) octal_not_whitespace by (intro takeWhile_eq_all_conv [THEN iffD2]) blast
  have w: "dropWhile is_whitespace ds = ds"
    using d by (simp add: ds)
  show ?thesis
    unfolding parseInt8_def w Let_def using d t assms(1) by (simp add: ds)
qed

text \<open>The text of a checksum: six octal digits for a sum below \<open>8 ^ 6\<close>.\<close>

lemma checksum_text:
  assumes "n < 8 ^ 6"
  shows "length (padStart 6 48 (toString8 (Num (int n)))) = 6"
    and "\<forall>d\<in>set (padStart 6 48 (toString8 (Num (int n)))). d \<in> {48, 49, 50, 51, 52, 53, 54, 55}"
    and "octal_value (padStart 6 48 (toString8 (Num (int n)))) = int n"
proof -
  have t: "toString8 (Num (int n)) = octal_digits n"
    by (simp add: toString8_def)
  have l: "length (octal_digits n) \<le> 6"
    using octal_digits_length [of n 6] assms by simp
  show "length (padStart 6 48 (toString8 (Num (int n)))) = 6"
    using l by (simp add: t length_padStart)
  show "\<forall>d\<in>set (padStart 6 48 (toString8 (Num (int n)))). d \<in> {48, 49, 50, 51, 52, 53, 54, 55}"
    using octal_digits_set [of _ n] by (auto simp: t padStart_def)
  show "octal_value (padStart 6 48 (toString8 (Num (int n)))) = int n"
    by (simp add: t padStart_def octal_value_zeros octal_value_digits)
qed

lemma byte_sum_append: "byte_sum (xs @ ys) = byte_sum xs + byte_sum ys"
  by (simp add: byte_sum_def)

lemma byte_sum_bound: "byte_sum bs \<le> 255 * length bs"
proof (induction bs)
  case Nil
  show ?case by (simp add: byte_sum_def)
next
  case (Cons b bs)
  then show ?case
    using byte_bound [of b] by (simp add: byte_sum_def)
qed

lemma write_checksum_Inr:
  assumes "length h = 512"
  obtains D where "write_checksum h = Inr (take 148 h @ D @ [0] @ drop 155 h)"
    and "length D = 6" and "parseInt8 (decode D) = Num (int (byte_sum h))"
proof -
  let ?T = "padStart 6 48 (toString8 (Num (int (byte_sum h))))"
  have "byte_sum h \<le> 255 * 512"
    using byte_sum_bound [of h] assms by simp
  then have n: "byte_sum h < 8 ^ 6"
    by simp
  note T = checksum_text [OF n]
  have a: "\<forall>c\<in>set ?T. c < 0x80"
    using T(2) octal_not_whitespace by blast
  have a0: "\<forall>c\<in>set (?T @ [0]). c < 0x80"
    using a by simp
  let ?D = "map ucast ?T :: bytes"
  have e: "encode (?T @ [0]) = ?D @ [0]"
    using encode_ascii [OF a0] by simp
  have d: "decode ?D = ?T"
    using decode_encode_ascii [OF a] encode_ascii [OF a] by simp
  have ne: "?T \<noteq> []"
    using T(1) by auto
  have p: "parseInt8 (decode ?D) = Num (int (byte_sum h))"
    using parseInt8_digits [OF ne T(2)] T(3) by (simp add: d)
  have w: "write_checksum h = Inr (take 148 h @ ?D @ [0] @ drop 155 h)"
    unfolding write_checksum_def e using assms T(1) by (simp add: set_at_def)
  show ?thesis
    using that [OF w _ p] T(1) by simp
qed

lemma write_checksum_check:
  assumes "length h3 = 512" and "write_checksum h3 = Inr h"
  shows "checksum_fails h = Inr (byte_sum (take 8 (drop 148 h3)) \<noteq> 256)"
proof -
  obtain D where w: "write_checksum h3 = Inr (take 148 h3 @ D @ [0] @ drop 155 h3)"
    and l: "length D = 6" and p: "parseInt8 (decode D) = Num (int (byte_sum h3))"
    using write_checksum_Inr [OF assms(1)] by blast
  have h: "h = take 148 h3 @ D @ [0] @ drop 155 h3"
    using w assms(2) by simp
  have lh: "length h = 512"
    using assms(1) l by (simp add: h)
  have s: "slice h 148 (156 - 2) = D"
    using assms(1) l lh by (simp add: slice_def rel_index_def h)
  have m: "set_at h (replicate 8 32) 148 = Inr (take 148 h3 @ replicate 8 32 @ drop 156 h3)"
    using assms(1) l lh by (simp add: set_at_def h)
  have "drop 156 h3 = drop 8 (drop 148 h3)"
    by simp
  then have "take 8 (drop 148 h3) @ drop 156 h3 = drop 148 h3"
    by (simp only: append_take_drop_id)
  then have "byte_sum (drop 148 h3) = byte_sum (take 8 (drop 148 h3)) + byte_sum (drop 156 h3)"
    by (simp only: byte_sum_append [symmetric])
  moreover have "byte_sum h3 = byte_sum (take 148 h3) + byte_sum (drop 148 h3)"
    by (simp only: byte_sum_append [symmetric] append_take_drop_id)
  ultimately have "byte_sum h3 =
      byte_sum (take 148 h3) + byte_sum (take 8 (drop 148 h3)) + byte_sum (drop 156 h3)"
    by simp
  moreover have "byte_sum (take 148 h3 @ replicate 8 32 @ drop 156 h3) =
      byte_sum (take 148 h3) + 256 + byte_sum (drop 156 h3)"
    by (simp add: byte_sum_append) (simp add: byte_sum_def sum_list_replicate)
  ultimately show ?thesis
    unfolding checksum_fails_def m s p by auto
qed

lemma header_block_InrD:
  assumes "header_block now c p n = Inr h"
  shows "length h = 512"
    and "take 48 (drop 100 h) = take 48 (encode (header_fields now c))"
    and "take 190 (drop 155 h) = take 190 (drop 55 (encode (header_fields now c)))"
    and "checksum_fails h = Inr (byte_sum (take 8 (drop 48 (encode (header_fields now c)))) \<noteq> 256)"
proof -
  let ?E = "encode (header_fields now c)"
  from assms obtain h3 where d: "header_draft now c p n = Inr h3" and w: "write_checksum h3 = Inr h"
    by (auto simp: header_block_def split: sum.splits)
  note l3 = header_draft_InrD(1) [OF d] and t3 = header_draft_InrD(2) [OF d]
  obtain D where w': "write_checksum h3 = Inr (take 148 h3 @ D @ [0] @ drop 155 h3)"
    and lD: "length D = 6"
    using write_checksum_Inr [OF l3] by blast
  have h: "h = take 148 h3 @ D @ [0] @ drop 155 h3"
    using w w' by simp
  show "length h = 512"
    using l3 lD by (simp add: h)
  have "take 48 (drop 100 h) = take 48 (drop 100 h3)"
    using l3 by (simp add: h take_drop)
  also have "\<dots> = take 48 (take 245 (drop 100 h3))"
    by simp
  also have "\<dots> = take 48 ?E"
    by (simp add: t3)
  finally show "take 48 (drop 100 h) = take 48 ?E" .
  have "take 190 (drop 155 h) = take 190 (drop 155 h3)"
    using l3 lD by (simp add: h)
  also have "\<dots> = take 190 (drop 55 (take 245 (drop 100 h3)))"
    by (simp add: drop_take)
  also have "\<dots> = take 190 (drop 55 ?E)"
    by (simp add: t3 drop_take)
  finally show "take 190 (drop 155 h) = take 190 (drop 55 ?E)" .
  have "take 8 (drop 148 h3) = take 8 (drop 48 (take 245 (drop 100 h3)))"
    by (simp add: drop_take)
  also have "\<dots> = take 8 (drop 48 ?E)"
    by (simp add: t3 drop_take)
  finally have "take 8 (drop 148 h3) = take 8 (drop 48 ?E)" .
  then show "checksum_fails h = Inr (byte_sum (take 8 (drop 48 ?E)) \<noteq> 256)"
    using write_checksum_check [OF l3 w] by simp
qed

lemma header_block_Inr:
  assumes "length n \<le> 512" and "length (encode (header_fields now c)) \<le> 412" and "length p \<le> 167"
  obtains h where "header_block now c p n = Inr h"
proof -
  let ?E = "encode (header_fields now c)"
  obtain h1 where h1: "set_at (replicate 512 0) n 0 = Inr h1"
    using assms(1) by (simp add: set_at_def)
  have l1: "length h1 = 512"
    using set_at_length [OF h1] by simp
  obtain h2 where h2: "set_at h1 ?E 100 = Inr h2"
    using assms(2) l1 by (simp add: set_at_def)
  have l2: "length h2 = 512"
    using set_at_length [OF h2] l1 by simp
  obtain h3 where h3: "set_at h2 p 345 = Inr h3"
    using assms(3) l2 by (simp add: set_at_def)
  have d: "header_draft now c p n = Inr h3"
    by (simp add: header_draft_def h1 h2 h3)
  have l3: "length h3 = 512"
    using set_at_length [OF h3] l2 by simp
  obtain D where "write_checksum h3 = Inr (take 148 h3 @ D @ [0] @ drop 155 h3)"
    using write_checksum_Inr [OF l3] by blast
  then show ?thesis
    using that d by (simp add: header_block_def)
qed

lemma byte_sum_update:
  "j < length xs \<Longrightarrow> byte_sum (xs[j := v]) + unat (xs ! j) = byte_sum xs + unat v"
proof (induction xs arbitrary: j)
  case Nil
  then show ?case by simp
next
  case (Cons x xs)
  then show ?case
    by (cases j) (auto simp: byte_sum_def)
qed

lemma checksum_sensitive:
  assumes ok: "checksum_fails b = Inr False"
    and j: "j < length b" "j < 148 \<or> 156 \<le> j" and v: "v \<noteq> b ! j"
  shows "checksum_fails (b[j := v]) = Inr True"
proof -
  let ?m = "take 148 b @ replicate 8 32 @ drop 156 b"
  let ?b' = "b[j := v]"
  have lb: "156 \<le> length b"
    using ok by (auto simp: checksum_fails_def set_at_def split: if_splits)
  have m: "set_at b (replicate 8 32) 148 = Inr ?m"
    using lb by (simp add: set_at_def)
  have p: "Num (int (byte_sum ?m)) = parseInt8 (decode (slice b 148 (156 - 2)))"
    using ok by (simp add: checksum_fails_def m)
  have lm: "length ?m = length b"
    using lb by simp
  have mj: "?m ! j = b ! j"
    using j lb by (auto simp: nth_append min_def)
  have m': "set_at ?b' (replicate 8 32) 148 = Inr (?m[j := v])"
    using j lb
    by (auto simp: set_at_def list_update_append take_update_swap drop_update_swap
        take_update_cancel drop_update_cancel list_update_beyond)
  have s': "slice ?b' 148 (156 - 2) = slice b 148 (156 - 2)"
    using j lb
    by (auto simp: slice_def rel_index_def Let_def drop_update_cancel drop_update_swap
        take_update_cancel)
  have "byte_sum (?m[j := v]) + unat (b ! j) = byte_sum ?m + unat v"
    using byte_sum_update [of j ?m v] j lm by (simp only: mj)
  moreover have "unat v \<noteq> unat (b ! j)"
    using v by (simp add: word_unat_eq_iff)
  ultimately have "byte_sum (?m[j := v]) \<noteq> byte_sum ?m"
    by linarith
  then have "Num (int (byte_sum (?m[j := v]))) \<noteq> parseInt8 (decode (slice b 148 (156 - 2)))"
    unfolding p [symmetric] by simp
  then show ?thesis
    unfolding checksum_fails_def m' s' by simp
qed

lemmas header_eval = header_fields_def opt_field_def or_else_def typeflag_of_def
  size_extension_of_def padStart_def padEnd_def toString8_def str_def octal_digits.simps



section \<open>The checksum\<close>

lemma TarStream_single_Dir:
  assumes "\<not> options_rejected (Dir d)"
    and "split_pathname (Dir d) = Some (Inr (p, n))"
    and "header_block (clock 0) (Dir d) p n = Inr h"
  shows "TarStream clock [Dir d] = ([h, replicate 1024 0], Closed)"
proof -
  have "length h = 512"
    by (rule header_block_InrD(1) [OF assms(3)])
  then have "h \<noteq> []"
    by auto
  then show ?thesis
    using assms by (simp add: TarStream_def entry_def size_rejected_def)
qed

text \<open>
  C7. Checksum soundness and sensitivity. The claim as stated fails: the encoder sums
  the block as it stands, and with a modification time of thirteen octal digits the
  byte at 148 is a digit, not a space, when the sum is taken; the decoder then refuses
  the encoder's own header.
\<close>

theorem wide_mtime_checksum_mismatch:
  "snd (TarStream (\<lambda>k. 0)
     [Dir \<lparr>pathname = PathString (str ''d''),
           options = Some \<lparr>mode = None, uid = None, gid = None, mtime = Some (Num 68719476736),
                           uname = Some (str ''root''), gname = None, devmajor = None,
                           devminor = None\<rparr>\<rparr>]) = Closed \<and>
   parse_header (hd (fst (TarStream (\<lambda>k. 0)
     [Dir \<lparr>pathname = PathString (str ''d''),
           options = Some \<lparr>mode = None, uid = None, gid = None, mtime = Some (Num 68719476736),
                           uname = Some (str ''root''), gname = None, devmajor = None,
                           devminor = None\<rparr>\<rparr>]))) = Inl ChecksumMismatch"
proof -
  let ?d = "\<lparr>pathname = PathString (str ''d''),
           options = Some \<lparr>mode = None, uid = None, gid = None, mtime = Some (Num 68719476736),
                           uname = Some (str ''root''), gname = None, devmajor = None,
                           devminor = None\<rparr>\<rparr>"
  have o: "\<not> options_rejected (Dir ?d)"
    by (simp add: options_rejected_def validTarStreamOptions_def truthy_str_def truthy_num_def
        re_ascii_def str_def)
  have s: "split_pathname (Dir ?d) = Some (Inr ([], [100, 47]))"
    by (simp add: split_pathname_def parsePathname_def normalize_def startsWith_def str_def)
  have a: "\<forall>c\<in>set (header_fields 0 (Dir ?d)). c < 0x80"
    by (simp add: header_eval)
  have l: "length (encode (header_fields 0 (Dir ?d))) \<le> 412"
    unfolding encode_ascii [OF a] by (simp add: header_eval)
  have f: "take 8 (drop 48 (encode (header_fields 0 (Dir ?d)))) = 48 # 32 # replicate 6 32"
    unfolding encode_ascii [OF a] by (simp add: header_eval take_map drop_map)
  obtain h where h: "header_block 0 (Dir ?d) [] [100, 47] = Inr h"
    using header_block_Inr [of "[100, 47]" 0 "Dir ?d" "[]"] l by auto
  have t: "TarStream (\<lambda>k. 0) [Dir ?d] = ([h, replicate 1024 0], Closed)"
    using h by (intro TarStream_single_Dir [OF o s]) simp
  have "checksum_fails h = Inr True"
    using header_block_InrD(4) [OF h] by (simp add: f byte_sum_def sum_list_replicate)
  then show ?thesis
    by (simp add: t parse_header_def)
qed

text \<open>
  C7, amended. When the header text leaves eight spaces at the checksum field, as it
  does when mode, uid, gid, size and modification time have their standard widths, the
  block the encoder emits stores the sum of its bytes with the checksum field read as
  spaces, the decoder accepts it, and it refuses the block after a change of any single
  byte outside the checksum field.
\<close>

theorem checksum_sound_and_sensitive:
  assumes "header_block now c p n = Inr h"
    and "take 8 (drop 48 (encode (header_fields now c))) = replicate 8 32"
  shows "parseInt8 (decode (slice h 148 154)) =
           Num (int (byte_sum (take 148 h @ replicate 8 32 @ drop 156 h))) \<and>
         parse_header h \<noteq> Inl ChecksumMismatch \<and>
         (\<forall>j<512. j < 148 \<or> 156 \<le> j \<longrightarrow>
            (\<forall>v. v \<noteq> h ! j \<longrightarrow> parse_header (h[j := v]) = Inl ChecksumMismatch))"
proof -
  have l: "length h = 512"
    by (rule header_block_InrD(1) [OF assms(1)])
  have ok: "checksum_fails h = Inr False"
    using header_block_InrD(4) [OF assms(1)] assms(2) by (simp add: byte_sum_def sum_list_replicate)
  have "parseInt8 (decode (slice h 148 154)) =
      Num (int (byte_sum (take 148 h @ replicate 8 32 @ drop 156 h)))"
    using ok l by (simp add: checksum_fails_def set_at_def)
  moreover have "parse_header h \<noteq> Inl ChecksumMismatch"
    using ok by (simp add: parse_header_def)
  moreover have "parse_header (h[j := v]) = Inl ChecksumMismatch"
    if "j < 512" "j < 148 \<or> 156 \<le> j" "v \<noteq> h ! j" for j v
    using checksum_sensitive [OF ok _ that(2,3)] that(1) l by (simp add: parse_header_def)
  ultimately show ?thesis
    by blast
qed

theorem checksum_sound_and_sensitive_witness:
  "parseInt8 (decode (slice (projr (header_block 0
      (Dir \<lparr>pathname = PathString (str ''d''), options = None\<rparr>) [] [100, 47])) 148 154)) =
     Num (int (byte_sum (take 148 (projr (header_block 0
      (Dir \<lparr>pathname = PathString (str ''d''), options = None\<rparr>) [] [100, 47])) @
        replicate 8 32 @ drop 156 (projr (header_block 0
      (Dir \<lparr>pathname = PathString (str ''d''), options = None\<rparr>) [] [100, 47]))))) \<and>
   parse_header (projr (header_block 0
      (Dir \<lparr>pathname = PathString (str ''d''), options = None\<rparr>) [] [100, 47]))
     \<noteq> Inl ChecksumMismatch \<and>
   parse_header ((projr (header_block 0
      (Dir \<lparr>pathname = PathString (str ''d''), options = None\<rparr>) [] [100, 47]))[100 := 49])
     = Inl ChecksumMismatch"
proof -
  let ?c = "Dir \<lparr>pathname = PathString (str ''d''), options = None\<rparr>"
  have a: "\<forall>c\<in>set (header_fields 0 ?c). c < 0x80"
    by (simp add: header_eval)
  have l: "length (encode (header_fields 0 ?c)) \<le> 412"
    unfolding encode_ascii [OF a] by (simp add: header_eval)
  have f: "take 8 (drop 48 (encode (header_fields 0 ?c))) = replicate 8 32"
    unfolding encode_ascii [OF a] by (simp add: header_eval take_map drop_map)
  have m: "take 48 (encode (header_fields 0 ?c)) ! 0 = 48"
    unfolding encode_ascii [OF a] by (simp add: header_eval take_map nth_append)
  obtain h where h: "header_block 0 ?c [] [100, 47] = Inr h"
    using header_block_Inr [of "[100, 47]" 0 ?c "[]"] l by auto
  have "h ! 100 = take 48 (drop 100 h) ! 0"
    using header_block_InrD(1) [OF h] by simp
  then have v: "49 \<noteq> h ! 100"
    using header_block_InrD(2) [OF h] m by simp
  show ?thesis
    using checksum_sound_and_sensitive [OF h f] v by (simp add: h)
qed

section \<open>Fields absent from the options\<close>






section \<open>The bound on the size\<close>

lemma size_accepted_iff:
  "\<not> size_rejected (File f) \<longleftrightarrow>
     (\<exists>n. size_bytes f = Num n \<and> 0 \<le> n \<and> n \<le> 8 ^ (if sizeExtension f then 12 else 11))"
  by (cases "size_bytes f") (auto simp: size_rejected_def)

lemma TarStream_single_File_mismatch:
  assumes "\<not> options_rejected (File f)" and "\<not> size_rejected (File f)"
    and "split_pathname (File f) = Some (Inr (p, n))"
    and "header_block (clock 0) (File f) p n = Inr h"
    and "size_bytes f \<noteq> Num (int (sum_list (map length (iterable f))))"
    and "[] \<notin> set (iterable f)"
  shows "TarStream clock [File f] = (h # iterable f, Errored SizeMismatch)"
proof -
  have "length h = 512"
    by (rule header_block_InrD(1) [OF assms(4)])
  then have "h \<noteq> []"
    by auto
  then show ?thesis
    using assms by (simp add: TarStream_def entry_def body_chunks_def)
qed

text \<open>
  C4. The bound on the size. The claim fails at the bound itself: the guard compares
  with \<open>8 ^ 11 < size\<close>, so a file of exactly \<open>8 ^ 11\<close> bytes passes it. Its size has
  twelve octal digits where the field holds eleven, every later field of the header moves
  by one byte and the type flag at 156 is a space. With an empty body the run ends in
  the size mismatch, not in the error of the size guard.
\<close>

theorem size_8_to_11_accepted:
  "\<not> size_rejected
       (File \<lparr>pathname = PathString (str ''f''), options = None,
              size_bytes = Num 8589934592, sizeExtension = False, iterable = []\<rparr>) \<and>
   snd (TarStream (\<lambda>k. 0)
       [File \<lparr>pathname = PathString (str ''f''), options = None,
              size_bytes = Num 8589934592, sizeExtension = False, iterable = []\<rparr>])
     = Errored SizeMismatch \<and>
   take 13 (drop 124 (hd (fst (TarStream (\<lambda>k. 0)
       [File \<lparr>pathname = PathString (str ''f''), options = None,
              size_bytes = Num 8589934592, sizeExtension = False, iterable = []\<rparr>]))))
     = [49, 48, 48, 48, 48, 48, 48, 48, 48, 48, 48, 48, 32] \<and>
   take 1 (drop 156 (hd (fst (TarStream (\<lambda>k. 0)
       [File \<lparr>pathname = PathString (str ''f''), options = None,
              size_bytes = Num 8589934592, sizeExtension = False, iterable = []\<rparr>]))))
     = [32]"
proof -
  let ?f = "\<lparr>pathname = PathString (str ''f''), options = None,
              size_bytes = Num 8589934592, sizeExtension = False, iterable = []\<rparr>"
  have o: "\<not> options_rejected (File ?f)"
    by (simp add: options_rejected_def)
  have z: "\<not> size_rejected (File ?f)"
    by (simp add: size_rejected_def)
  have s: "split_pathname (File ?f) = Some (Inr ([], [102]))"
    by (simp add: split_pathname_def parsePathname_def normalize_def startsWith_def str_def)
  have a: "\<forall>c\<in>set (header_fields 0 (File ?f)). c < 0x80"
    by (simp add: header_eval)
  have l: "length (encode (header_fields 0 (File ?f))) \<le> 412"
    unfolding encode_ascii [OF a] by (simp add: header_eval)
  have f1: "take 13 (drop 24 (take 48 (encode (header_fields 0 (File ?f))))) =
      [49, 48, 48, 48, 48, 48, 48, 48, 48, 48, 48, 48, 32]"
    unfolding encode_ascii [OF a] by (simp add: header_eval take_map drop_map)
  have f2: "take 1 (drop 1 (take 190 (drop 55 (encode (header_fields 0 (File ?f)))))) = [32]"
    unfolding encode_ascii [OF a] by (simp add: header_eval take_map drop_map)
  obtain h where h: "header_block 0 (File ?f) [] [102] = Inr h"
    using header_block_Inr [of "[102]" 0 "File ?f" "[]"] l by auto
  have t: "TarStream (\<lambda>k. 0) [File ?f] = ([h], Errored SizeMismatch)"
    using TarStream_single_File_mismatch [OF o z s, of "\<lambda>k. 0" h] h by simp
  have "take 13 (drop 124 h) = take 13 (drop 24 (take 48 (drop 100 h)))"
    by (simp add: drop_take)
  then have 1: "take 13 (drop 124 h) = [49, 48, 48, 48, 48, 48, 48, 48, 48, 48, 48, 48, 32]"
    unfolding header_block_InrD(2) [OF h] f1 .
  have "take 1 (drop 156 h) = take 1 (drop 1 (take 190 (drop 155 h)))"
    by (simp add: drop_take)
  then have 2: "take 1 (drop 156 h) = [32]"
    unfolding header_block_InrD(3) [OF h] f2 .
  show ?thesis
    using z 1 2 by (simp add: t)
qed

section \<open>The body stream of an entry\<close>

text \<open>
  C2. The body stream of a regular file. The claim fails when the size is a multiple of
  512 other than zero: the last block is cut to \<^verbatim>\<open>size % 512\<close> bytes, which is
  none. For a size of 512 the stream reads its one block and hands a chunk of length
  zero to \<^verbatim>\<open>controller.enqueue\<close>; it delivers no byte and does not close.
\<close>

theorem body_of_512_delivers_nothing:
  "body_pulls (block_count (Num 512)) (size_int (Num 512)) [replicate 512 7] None =
     ([], \<lparr>failure = Some TypeError, released = False\<rparr>, [])"
  by (simp add: block_count_def size_int_def slice_def rel_index_def)

text \<open>
  For the other sizes the claim holds: the stream reads \<open>ceil(size / 512)\<close> blocks,
  delivers all but the last whole and the last cut to \<open>size mod 512\<close> bytes, and closes.
\<close>

lemma body_pulls_blocks:
  assumes "0 < r" and "r < 512"
  shows "0 \<le> k \<Longrightarrow> nat k < length vs \<Longrightarrow> \<forall>v\<in>set vs. length v = 512 \<Longrightarrow>
         body_pulls (k + 1) (512 * q + r) vs ending =
           (take (nat k) vs @ [take (nat r) (vs ! nat k)],
            \<lparr>failure = None, released = True\<rparr>, drop (nat k + 1) vs)"
proof (induction vs arbitrary: k)
  case Nil
  then show ?case by simp
next
  case (Cons v vs)
  have m: "r mod 512 = r"
    using assms by simp
  have lv: "length v = 512"
    using Cons.prems by simp
  have sl: "slice v 0 r = take (nat r) v"
    using assms lv by (simp add: slice_def rel_index_def)
  have ne: "take (nat r) v \<noteq> []"
    using assms lv by auto
  show ?case
  proof (cases "k = 0")
    case True
    have "body_pulls 0 (512 * q + r) vs ending =
        ([], \<lparr>failure = None, released = True\<rparr>, vs)"
      by (cases vs) simp_all
    moreover have "v \<noteq> []"
      using lv by auto
    ultimately show ?thesis
      using assms(1) by (simp add: True m sl ne)
  next
    case False
    then have k: "0 < k"
      using Cons.prems by simp
    have v: "v \<noteq> []"
      using lv by auto
    have ih: "body_pulls (k - 1 + 1) (512 * q + r) vs ending =
        (take (nat (k - 1)) vs @ [take (nat r) (vs ! nat (k - 1))],
         \<lparr>failure = None, released = True\<rparr>, drop (nat (k - 1) + 1) vs)"
      using Cons.prems k by (intro Cons.IH) auto
    have n: "nat k = Suc (nat (k - 1))"
      using k by simp
    show ?thesis
      using k ih by (simp add: v n)
  qed
qed

lemma concat_take_blocks:
  "n \<le> length vs \<Longrightarrow> \<forall>v\<in>set vs. length v = 512 \<Longrightarrow>
   length (concat (take n vs)) = 512 * n"
proof (induction vs arbitrary: n)
  case Nil
  then show ?case by simp
next
  case (Cons v vs)
  then show ?case
    by (cases n) auto
qed

lemma body_pulls_exact:
  assumes "0 < s" and "s mod 512 \<noteq> 0"
    and "nat (block_count (Num s)) \<le> length vs" and "\<forall>v\<in>set vs. length v = 512"
  shows "\<exists>cs. body_pulls (block_count (Num s)) (size_int (Num s)) vs ending =
           (cs, \<lparr>failure = None, released = True\<rparr>, drop (nat (block_count (Num s))) vs) \<and>
         int (length (concat cs)) = s"
proof -
  define q where "q = s div 512"
  define r where "r = s mod 512"
  have s: "s = 512 * q + r"
    by (simp add: q_def r_def)
  have r: "0 < r" "r < 512"
    using assms(2) pos_mod_sign [of 512 s] pos_mod_bound [of 512 s] by (auto simp: r_def)
  have q: "0 \<le> q"
    using assms(1) by (simp add: q_def)
  have bc: "block_count (Num s) = q + 1"
    unfolding block_count_def s using r by (simp add: div_pos_neg_trivial zdiv_zminus1_eq_if)
  have lq: "nat q < length vs"
    using assms(3) q by (simp add: bc)
  have b: "body_pulls (q + 1) s vs ending =
      (take (nat q) vs @ [take (nat r) (vs ! nat q)],
       \<lparr>failure = None, released = True\<rparr>, drop (nat q + 1) vs)"
    using body_pulls_blocks [OF r q lq assms(4), of q ending] unfolding s [symmetric] .
  have "length (concat (take (nat q) vs)) = 512 * nat q"
    using lq assms(4) by (intro concat_take_blocks) auto
  moreover have "length (take (nat r) (vs ! nat q)) = nat r"
    using assms(4) lq r by simp
  ultimately have "int (length (concat (take (nat q) vs @ [take (nat r) (vs ! nat q)]))) =
      512 * q + r"
    using q r by simp
  then have c: "int (length (concat (take (nat q) vs @ [take (nat r) (vs ! nat q)]))) = s"
    unfolding s [symmetric] .
  have n: "nat (q + 1) = nat q + 1"
    using q by simp
  have "body_pulls (block_count (Num s)) (size_int (Num s)) vs ending =
      (take (nat q) vs @ [take (nat r) (vs ! nat q)],
       \<lparr>failure = None, released = True\<rparr>, drop (nat (block_count (Num s))) vs)"
    unfolding bc n using b by (simp add: size_int_def)
  with c show ?thesis
    by blast
qed

section \<open>The round trip\<close>

lemma blocks_in_512: "length y = 512 \<Longrightarrow> blocks_in y = [y] \<and> leftover_of y = []"
  by (simp add: blocks_in_def leftover_of_def slice_def rel_index_def)

lemma upt_0_2: "[0..<2] = [0, Suc 0]"
  by (simp add: numeral_2_eq_2)

lemma blocks_in_zeros:
  "blocks_in (replicate 1024 0) = [replicate 512 0, replicate 512 0] \<and>
   leftover_of (replicate 1024 0) = []"
  by (simp add: blocks_in_def leftover_of_def slice_def rel_index_def upt_0_2)

lemma TarStream_single_File:
  assumes "\<not> options_rejected (File f)" and "\<not> size_rejected (File f)"
    and "split_pathname (File f) = Some (Inr (p, n))"
    and "header_block (clock 0) (File f) p n = Inr h"
    and "size_bytes f = Num (int (sum_list (map length (iterable f))))"
    and "[] \<notin> set (iterable f)"
  shows "TarStream clock [File f] =
           (h # iterable f @
              (if int (sum_list (map length (iterable f))) mod 512 \<noteq> 0
               then [replicate (nat (512 - int (sum_list (map length (iterable f))) mod 512)) 0]
               else []) @ [replicate 1024 0], Closed)"
proof -
  have "length h = 512"
    by (rule header_block_InrD(1) [OF assms(4)])
  then have h: "h \<noteq> []"
    by auto
  have "0 < nat (512 - int (sum_list (map length (iterable f))) mod 512)"
    using pos_mod_bound [of 512 "int (sum_list (map length (iterable f)))"] by simp
  then have "replicate (nat (512 - int (sum_list (map length (iterable f))) mod 512)) (0 :: 8 word) \<noteq> []"
    by auto
  then show ?thesis
    using assms h by (simp add: TarStream_def entry_def body_chunks_def Let_def)
qed

lemma parse_header_file:
  assumes "checksum_fails v = Inr False"
  shows "\<exists>h. parse_header v = Inr h \<and>
           header_typeflag h = hdr_typeflag (old_style v) \<and>
           header_size h = hdr_size (old_style v)"
  using assms
  by (simp add: parse_header_def OldStyleFormat.extend_def OldStyleFormat.defs PosixUstarFormat.defs)

text \<open>
  The header block of a file \<^verbatim>\<open>b.txt\<close> of 512 bytes without options, as the encoder
  emits it at time 0, and what the decoder reads from it.
\<close>

lemma header_of_512_file:
  obtains h hdr where
    "header_block 0
       (File \<lparr>pathname = PathString (str ''b.txt''), options = None, size_bytes = Num 512,
              sizeExtension = False, iterable = [replicate 512 7]\<rparr>)
       [] [98, 46, 116, 120, 116] = Inr h"
    and "parse_header h = Inr hdr"
    and "header_typeflag hdr = str ''0''"
    and "header_size hdr = Num 512"
proof -
  let ?f = "\<lparr>pathname = PathString (str ''b.txt''), options = None, size_bytes = Num 512,
             sizeExtension = False, iterable = [replicate 512 7]\<rparr>"
  let ?E = "encode (header_fields 0 (File ?f))"
  have a: "\<forall>c\<in>set (header_fields 0 (File ?f)). c < 0x80"
    by (simp add: header_eval)
  have l: "length ?E \<le> 412"
    unfolding encode_ascii [OF a] by (simp add: header_eval)
  have f: "take 8 (drop 48 ?E) = replicate 8 32"
    unfolding encode_ascii [OF a] by (simp add: header_eval take_map drop_map)
  have ft: "take 1 (drop 1 (take 190 (drop 55 ?E))) = [48]"
    unfolding encode_ascii [OF a] by (simp add: header_eval take_map drop_map)
  have fs: "take 12 (drop 24 (take 48 ?E)) = [48, 48, 48, 48, 48, 48, 48, 49, 48, 48, 48, 32]"
    unfolding encode_ascii [OF a]
    by (simp add: header_eval take_map drop_map) (simp add: numeral_eq_Suc)
  obtain h where h: "header_block 0 (File ?f) [] [98, 46, 116, 120, 116] = Inr h"
    using header_block_Inr [of "[98, 46, 116, 120, 116]" 0 "File ?f" "[]"] l by auto
  note lh = header_block_InrD(1) [OF h]
  have ok: "checksum_fails h = Inr False"
    using header_block_InrD(4) [OF h] by (simp add: f byte_sum_def sum_list_replicate)
  obtain hdr where hdr: "parse_header h = Inr hdr"
    and tf: "header_typeflag hdr = hdr_typeflag (old_style h)"
    and sz: "header_size hdr = hdr_size (old_style h)"
    using parse_header_file [OF ok] by blast
  have "slice h 156 157 = take 1 (drop 1 (take 190 (drop 155 h)))"
    using lh by (simp add: slice_def rel_index_def drop_take)
  then have "slice h 156 157 = [48]"
    unfolding header_block_InrD(3) [OF h] ft .
  then have tf': "header_typeflag hdr = str ''0''"
    by (simp add: tf old_style_def decode_def str_def)
  have "slice h 124 136 = take 12 (drop 24 (take 48 (drop 100 h)))"
    using lh by (simp add: slice_def rel_index_def drop_take)
  then have "slice h 124 136 = [48, 48, 48, 48, 48, 48, 48, 49, 48, 48, 48, 32]"
    unfolding header_block_InrD(2) [OF h] fs .
  then have sz': "header_size hdr = Num 512"
    by (simp add: sz old_style_def decode_def trimEnd_def parseInt8_def is_whitespace_def
        is_octal_def octal_value_def)
  show ?thesis
    using that [OF h hdr tf' sz'] .
qed

text \<open>
  C1. The round trip. The claim fails on a file whose size is a multiple of 512: the
  encoder's output for one file of 512 bytes is decoded to one entry whose body stream
  delivers no byte and fails, and the decoder never proceeds to the end of the archive.
\<close>

theorem round_trip_512_loses_body:
  "snd (TarStream (\<lambda>k. 0)
      [File \<lparr>pathname = PathString (str ''b.txt''), options = None, size_bytes = Num 512,
             sizeExtension = False, iterable = [replicate 512 7]\<rparr>]) = Closed \<and>
   map readable (fst (UnTarStream passed (fst (TarStream (\<lambda>k. 0)
      [File \<lparr>pathname = PathString (str ''b.txt''), options = None, size_bytes = Num 512,
             sizeExtension = False, iterable = [replicate 512 7]\<rparr>])))) =
     [Some ([], \<lparr>failure = Some TypeError, released = False\<rparr>)] \<and>
   snd (UnTarStream passed (fst (TarStream (\<lambda>k. 0)
      [File \<lparr>pathname = PathString (str ''b.txt''), options = None, size_bytes = Num 512,
             sizeExtension = False, iterable = [replicate 512 7]\<rparr>]))) = Pending"
proof -
  let ?f = "\<lparr>pathname = PathString (str ''b.txt''), options = None, size_bytes = Num 512,
             sizeExtension = False, iterable = [replicate 512 7]\<rparr>"
  let ?B = "replicate 512 7 :: bytes"
  have o: "\<not> options_rejected (File ?f)"
    by (simp add: options_rejected_def)
  have z: "\<not> size_rejected (File ?f)"
    by (simp add: size_rejected_def)
  have s: "split_pathname (File ?f) = Some (Inr ([], [98, 46, 116, 120, 116]))"
    by (simp add: split_pathname_def parsePathname_def normalize_def startsWith_def str_def)
  obtain h hdr where h: "header_block 0 (File ?f) [] [98, 46, 116, 120, 116] = Inr h"
    and hdr: "parse_header h = Inr hdr"
    and tf: "header_typeflag hdr = str ''0''" and sz: "header_size hdr = Num 512"
    by (rule header_of_512_file)
  note lh = header_block_InrD(1) [OF h]
  have t: "TarStream (\<lambda>k. 0) [File ?f] = ([h, ?B, replicate 1024 0], Closed)"
    using TarStream_single_File [OF o z s, of "\<lambda>k. 0" h] h by simp
  have u: "UnTarStream passed [h, ?B, replicate 1024 0] = untar [h, ?B] None"
    using lh by (simp add: UnTarStream_def blocks_in_512 blocks_in_zeros list_all_iff)
  have b: "body_pulls (block_count (Num 512)) (size_int (Num 512)) [?B] None =
      ([], \<lparr>failure = Some TypeError, released = False\<rparr>, [])"
    by (simp add: block_count_def size_int_def slice_def rel_index_def)
  have "untar [h, ?B] None =
      ([\<lparr>entry_pathname = header_pathname hdr, header = hdr,
         readable = Some ([], \<lparr>failure = Some TypeError, released = False\<rparr>)\<rparr>], Pending)"
    by (simp add: hdr tf sz b Let_def del: body_pulls.simps)
  then show ?thesis
    by (simp add: t u)
qed

section \<open>Exclusivity of the body streams\<close>

lemma exclusive_init: "exclusive (init vs ending)"
  by (simp add: exclusive_def init_def)

lemma finished_not_Readable:
  "body_ok s k b \<Longrightarrow> finished b \<Longrightarrow> stream b \<noteq> Readable"
  by (auto simp: body_ok_def finished_def)

lemma exclusive_top:
  assumes "exclusive s" and "e = TopPull \<or> e = TopPoll \<or> e = TopCancel" and "fire e s = Some s'"
  shows "exclusive s'"
  using assms by (auto simp: exclusive_def body_ok_def split: if_splits)

lemma exclusive_TopRead:
  assumes "exclusive s" and "fire TopRead s = Some s'"
  shows "exclusive s'"
proof -
  from assms(2) have r: "top_at s = TopReading" and s': "s' = top_read s"
    by (auto split: if_splits)
  have c: "current s = None"
    using assms(1) r by (simp add: exclusive_def)
  have ok: "body_ok s k (bodies s ! k)" if "k < length (bodies s)" for k
    using assms(1) that by (simp add: exclusive_def)
  show ?thesis
  proof (cases "source s")
    case Nil
    then show ?thesis
      using assms(1)
      by (auto simp: s' top_read_def exclusive_def body_ok_def split: option.splits)
  next
    case (Cons v vs)
    have fin: "finished (bodies s ! k)" if "k < length (bodies s)" for k
      using ok [OF that] c Cons by (simp add: body_ok_def)
    have nr: "stream (bodies s ! k) \<noteq> Readable" if "k < length (bodies s)" for k
      using finished_not_Readable [OF ok [OF that] fin [OF that]] .
    show ?thesis
    proof (cases "parse_header v")
      case (Inl e)
      then show ?thesis
        using ok fin nr by (auto simp: s' top_read_def Cons exclusive_def body_ok_def)
    next
      case (Inr h)
      show ?thesis
        using ok fin nr
        by (auto simp: s' top_read_def Cons Inr exclusive_def body_ok_def nth_append new_body_def
            less_Suc_eq)
    qed
  qed
qed

text \<open>
  An event of the body stream \<open>k\<close> changes that stream and, of the decoder, at most
  \<^verbatim>\<open>header\<close>, which it clears, and the source, which it shortens.
\<close>

lemma exclusive_with_body:
  assumes inv: "exclusive s" and k: "k < length (bodies s)"
    and top: "top_at s1 = top_at s" and bs: "bodies s1 = bodies s"
    and cur: "current s1 = current s \<or> current s1 = None"
    and src: "source s1 \<noteq> [] \<Longrightarrow> source s \<noteq> []"
    and new: "body_ok (with_body k (s1, b')) k b'"
    and last: "current s1 \<noteq> current s \<Longrightarrow> source s1 \<noteq> [] \<Longrightarrow> Suc k = length (bodies s)"
  shows "exclusive (with_body k (s1, b'))"
proof -
  let ?s' = "with_body k (s1, b')"
  have l: "length (bodies ?s') = length (bodies s)"
    by (simp add: with_body_def bs)
  have f: "current ?s' = current s1" "source ?s' = source s1" "top_at ?s' = top_at s1"
    by (simp_all add: with_body_def)
  have ok: "body_ok s j (bodies s ! j)" if "j < length (bodies s)" for j
    using inv that by (simp add: exclusive_def)
  have "body_ok ?s' j (bodies ?s' ! j)" if j: "j < length (bodies s)" for j
  proof (cases "j = k")
    case True
    then show ?thesis
      using new k by (simp add: with_body_def bs)
  next
    case False
    then have n: "bodies ?s' ! j = bodies s ! j"
      by (simp add: with_body_def bs)
    have "finished (bodies s ! j)"
      if "source s1 \<noteq> []" and "current s1 = None \<or> Suc j < length (bodies s)"
    proof (cases "Suc j < length (bodies s)")
      case True
      then show ?thesis
        using ok [OF j] src [OF that(1)] by (simp add: body_ok_def)
    next
      case nl: False
      then have c1: "current s1 = None"
        using that(2) by simp
      have "current s = None"
      proof (rule ccontr)
        assume "current s \<noteq> None"
        then have "current s1 \<noteq> current s"
          using c1 by auto
        from last [OF this that(1)] j nl False show False
          by simp
      qed
      then show ?thesis
        using ok [OF j] src [OF that(1)] by (simp add: body_ok_def)
    qed
    then show ?thesis
      using ok [OF j] unfolding body_ok_def n l f by blast
  qed
  moreover have "top_at ?s' = TopReading \<longrightarrow> current ?s' = None"
    using inv cur by (auto simp: f top exclusive_def)
  ultimately show ?thesis
    by (simp add: exclusive_def l)
qed

lemma exclusive_Pull:
  assumes "exclusive s" and "fire (Pull k req) s = Some s'"
  shows "exclusive s'"
proof -
  let ?b = "bodies s ! k"
  from assms(2) have g: "k < length (bodies s)" "stream ?b = Readable" "pull_at ?b = PullIdle"
    and s': "s' = with_body k (pull_start req s ?b)"
    by (auto split: if_splits)
  have ok: "body_ok s k ?b"
    using assms(1) g(1) by (simp add: exclusive_def)
  obtain s1 b' where r: "pull_start req s ?b = (s1, b')"
    by (cases "pull_start req s ?b")
  note d = pull_start_def body_ok_def with_body_def finished_def
  show ?thesis
    unfolding s' r
  proof (rule exclusive_with_body [OF assms(1) g(1)])
    show "top_at s1 = top_at s"
      using r by (auto simp: d split: option.splits if_splits)
    show "bodies s1 = bodies s"
      using r by (auto simp: d split: option.splits if_splits)
    show "current s1 = current s \<or> current s1 = None"
      using r by (auto simp: d split: option.splits if_splits)
    show "source s \<noteq> []" if "source s1 \<noteq> []"
      using r that by (auto simp: d split: option.splits if_splits)
    show "body_ok (with_body k (s1, b')) k b'"
      using r ok g by (auto simp: d split: option.splits if_splits)
    show "Suc k = length (bodies s)" if "current s1 \<noteq> current s" "source s1 \<noteq> []"
      using ok g by (simp add: body_ok_def)
  qed
qed

lemma exclusive_drain_test:
  assumes "exclusive s" and k: "k < length (bodies s)"
    and c: "cancel_at (bodies s ! k) = CancelWaiting \<or> cancel_at (bodies s ! k) = CancelDraining"
    and p: "pull_at (bodies s ! k) = PullIdle"
    and s0: "bodies s0 = bodies s" "current s0 = current s" "top_at s0 = top_at s"
    and src: "source s0 \<noteq> [] \<Longrightarrow> source s \<noteq> []"
  shows "exclusive (with_body k (drain_test s0 (bodies s ! k)))"
proof -
  let ?b = "bodies s ! k"
  have ok: "body_ok s k ?b"
    using assms(1) k by (simp add: exclusive_def)
  have nr: "stream ?b \<noteq> Readable"
    using ok c by (auto simp: body_ok_def)
  have nf: "\<not> finished ?b"
    using c by (auto simp: finished_def)
  show ?thesis
  proof (cases "0 < i_left ?b")
    case True
    let ?b' = "?b\<lparr>i_left := i_left ?b - 1, cancel_at := CancelDraining\<rparr>"
    have "exclusive (with_body k (s0, ?b'))"
    proof (rule exclusive_with_body [OF assms(1) k])
      show "body_ok (with_body k (s0, ?b')) k ?b'"
        unfolding body_ok_def using ok nr p nf src s0
        by (simp add: with_body_def body_ok_def) auto
    qed (use s0 src in simp_all)
    then show ?thesis
      by (simp add: drain_test_def True)
  next
    case False
    let ?b' = "?b\<lparr>i_left := i_left ?b - 1, cancel_at := CancelDone\<rparr>"
    have "exclusive (with_body k (s0\<lparr>current := None\<rparr>, ?b'))"
    proof (rule exclusive_with_body [OF assms(1) k])
      show "body_ok (with_body k (s0\<lparr>current := None\<rparr>, ?b')) k ?b'"
        unfolding body_ok_def using nr p by (simp add: with_body_def finished_def)
      show "Suc k = length (bodies s)"
        if "current (s0\<lparr>current := None\<rparr>) \<noteq> current s"
          and "source (s0\<lparr>current := None\<rparr>) \<noteq> []"
      proof -
        have "source s \<noteq> []"
          using that(2) src by simp
        then have "\<not> (current s = None \<or> Suc k < length (bodies s))"
          using ok nf by (auto simp: body_ok_def)
        then show ?thesis
          using k by simp
      qed
    qed (use s0 src in simp_all)
    then show ?thesis
      by (simp add: drain_test_def False)
  qed
qed

lemma exclusive_Cancel:
  assumes "exclusive s" and "fire (Cancel k) s = Some s'"
  shows "exclusive s'"
proof -
  let ?b = "bodies s ! k"
  let ?w = "?b\<lparr>stream := StreamClosed, cancel_at := CancelWaiting\<rparr>"
  from assms(2) have g: "k < length (bodies s)" "stream ?b = Readable"
    and s': "s' = with_body k (if lock ?b then (s, ?w) else drain_test s (?b\<lparr>stream := StreamClosed\<rparr>))"
    by (auto split: if_splits)
  have ok: "body_ok s k ?b"
    using assms(1) g(1) by (simp add: exclusive_def)
  have w: "exclusive (with_body k (s, ?w))"
  proof (rule exclusive_with_body [OF assms(1) g(1)])
    show "body_ok (with_body k (s, ?w)) k ?w"
      using ok g by (auto simp: body_ok_def with_body_def finished_def)
  qed simp_all
  show ?thesis
  proof (cases "lock ?b")
    case True
    then show ?thesis
      using w by (simp add: s')
  next
    case False
    let ?t = "with_body k (s, ?w)"
    have p: "pull_at ?b = PullIdle"
      using ok False by (auto simp: body_ok_def)
    have t: "bodies ?t ! k = ?w" "k < length (bodies ?t)"
      using g(1) by (simp_all add: with_body_def)
    have "exclusive (with_body k (drain_test ?t (bodies ?t ! k)))"
      using p by (intro exclusive_drain_test [OF w t(2)]) (simp_all add: t(1))
    moreover have "with_body k (drain_test ?t ?w) =
        with_body k (drain_test s (?b\<lparr>stream := StreamClosed\<rparr>))"
      by (simp add: drain_test_def with_body_def)
    ultimately show ?thesis
      by (simp add: s' False t(1))
  qed
qed

lemma exclusive_CancelPoll:
  assumes "exclusive s" and "fire (CancelPoll k) s = Some s'"
  shows "exclusive s'"
proof -
  let ?b = "bodies s ! k"
  from assms(2) have g: "k < length (bodies s)" "cancel_at ?b = CancelWaiting"
    and s': "s' = (if lock ?b then s else with_body k (drain_test s ?b))"
    by (auto split: if_splits)
  have ok: "body_ok s k ?b"
    using assms(1) g(1) by (simp add: exclusive_def)
  show ?thesis
  proof (cases "lock ?b")
    case True
    then show ?thesis
      using assms(1) by (simp add: s')
  next
    case False
    then have "pull_at ?b = PullIdle"
      using ok by (auto simp: body_ok_def)
    then show ?thesis
      using exclusive_drain_test [OF assms(1) g(1), of s] g(2) False by (simp add: s')
  qed
qed

lemma exclusive_CancelRead:
  assumes "exclusive s" and "fire (CancelRead k) s = Some s'"
  shows "exclusive s'"
proof -
  let ?b = "bodies s ! k"
  from assms(2) have g: "k < length (bodies s)" "cancel_at ?b = CancelDraining"
    and s': "s' = with_body k (cancel_read s ?b)"
    by (auto split: if_splits)
  have ok: "body_ok s k ?b"
    using assms(1) g(1) by (simp add: exclusive_def)
  have p: "pull_at ?b = PullIdle"
    using ok g(2) by (simp add: body_ok_def)
  show ?thesis
  proof (cases "source s")
    case Nil
    have "exclusive (with_body k (s\<lparr>current := None\<rparr>, ?b\<lparr>cancel_at := CancelDone\<rparr>))"
    proof (rule exclusive_with_body [OF assms(1) g(1)])
      show "body_ok (with_body k (s\<lparr>current := None\<rparr>, ?b\<lparr>cancel_at := CancelDone\<rparr>)) k
          (?b\<lparr>cancel_at := CancelDone\<rparr>)"
        using ok g p by (auto simp: body_ok_def with_body_def finished_def)
    qed (simp_all add: Nil)
    then show ?thesis
      by (simp add: s' cancel_read_def Nil)
  next
    case (Cons v vs)
    have "exclusive (with_body k (drain_test (s\<lparr>source := vs\<rparr>) ?b))"
      using g(2) p by (intro exclusive_drain_test [OF assms(1) g(1)]) (simp_all add: Cons)
    then show ?thesis
      by (simp add: s' cancel_read_def Cons)
  qed
qed

lemma pull_read_facts:
  assumes "pull_read s b = (s1, b')" and "pull_at b \<noteq> PullIdle \<longrightarrow> lock b"
  shows "top_at s1 = top_at s" and "bodies s1 = bodies s"
    and "source s1 = [] \<or> current s1 = current s \<and> (\<exists>v. source s = v # source s1)"
    and "current s1 = current s \<or> current s1 = None"
    and "cancel_at b' = cancel_at b"
    and "stream b' = Readable \<longrightarrow> stream b = Readable"
    and "pull_at b' \<noteq> PullIdle \<longrightarrow> pull_at b \<noteq> PullIdle \<and> lock b'"
proof -
  note d = pull_read_def Let_def closed_def errored_def
  show "top_at s1 = top_at s"
    using assms(1) by (auto simp: d split: list.splits option.splits pull_pc.splits if_splits)
  show "bodies s1 = bodies s"
    using assms(1) by (auto simp: d split: list.splits option.splits pull_pc.splits if_splits)
  show "source s1 = [] \<or> current s1 = current s \<and> (\<exists>v. source s = v # source s1)"
    using assms(1) by (auto simp: d split: list.splits option.splits pull_pc.splits if_splits)
  show "current s1 = current s \<or> current s1 = None"
    using assms(1) by (auto simp: d split: list.splits option.splits pull_pc.splits if_splits)
  show "cancel_at b' = cancel_at b"
    using assms(1) by (auto simp: d split: list.splits option.splits pull_pc.splits if_splits)
  show "stream b' = Readable \<longrightarrow> stream b = Readable"
    using assms(1) by (auto simp: d split: list.splits option.splits pull_pc.splits if_splits)
  show "pull_at b' \<noteq> PullIdle \<longrightarrow> pull_at b \<noteq> PullIdle \<and> lock b'"
    using assms by (auto simp: d split: list.splits option.splits pull_pc.splits if_splits)
qed

lemma exclusive_PullRead:
  assumes "exclusive s" and "fire (PullRead k) s = Some s'"
  shows "exclusive s'"
proof -
  let ?b = "bodies s ! k"
  from assms(2) have g: "k < length (bodies s)" "pull_at ?b \<noteq> PullIdle"
    and s': "s' = with_body k (pull_read s ?b)"
    by (auto split: if_splits)
  have ok: "body_ok s k ?b"
    using assms(1) g(1) by (simp add: exclusive_def)
  obtain s1 b' where r: "pull_read s ?b = (s1, b')"
    by (cases "pull_read s ?b")
  have lk: "pull_at ?b \<noteq> PullIdle \<longrightarrow> lock ?b"
    using ok by (simp add: body_ok_def)
  note f = pull_read_facts [OF r lk]
  have nf: "\<not> finished ?b"
    using g(2) by (simp add: finished_def)
  have nc: "cancel_at ?b \<noteq> CancelDraining" "cancel_at ?b \<noteq> CancelDone"
    using ok g(2) by (auto simp: body_ok_def)
  show ?thesis
    unfolding s' r
  proof (rule exclusive_with_body [OF assms(1) g(1) f(1,2,4)])
    show "source s \<noteq> []" if "source s1 \<noteq> []"
      using f(3) that by auto
    show "Suc k = length (bodies s)" if "current s1 \<noteq> current s" "source s1 \<noteq> []"
      using f(3) that by auto
    have 1: "stream b' = Readable \<longrightarrow> cancel_at b' = NotCancelled \<and> Suc k = length (bodies s)"
      using f(5,6) ok by (simp add: body_ok_def)
    have 2: "pull_at b' \<noteq> PullIdle \<longrightarrow> lock b'"
      using f(7) by simp
    have 3: "cancel_at b' = CancelDraining \<or> cancel_at b' = CancelDone \<longrightarrow> pull_at b' = PullIdle"
      using f(5) nc by simp
    have 4: "source s1 \<noteq> [] \<longrightarrow> current s1 = None \<or> Suc k < length (bodies s) \<longrightarrow> finished b'"
    proof (intro impI)
      assume a: "source s1 \<noteq> []" and b: "current s1 = None \<or> Suc k < length (bodies s)"
      from f(3) a have "current s1 = current s" and "source s \<noteq> []"
        by auto
      then have "finished ?b"
        using ok b by (auto simp: body_ok_def)
      with nf show "finished b'"
        by simp
    qed
    show "body_ok (with_body k (s1, b')) k b'"
      unfolding body_ok_def using 1 2 3 4 by (simp add: with_body_def f(2))
  qed
qed

section \<open>The blocks that a body stream takes\<close>

text \<open>
  Each event keeps the account of \<open>i\<close>, for every body stream; the reads of the
  stream that the event belongs to are added to its count.
\<close>

lemma blocks_of_new_body: "blocks_of (new_body h) = i_left (new_body h)"
  by (simp add: blocks_of_def new_body_def block_count_def size_int_def split: jsnum.splits)

lemma source_fire:
  assumes "fire e s = Some s'"
  shows "length (source s') \<le> length (source s)"
proof (cases e)
  case TopRead
  then show ?thesis
    using assms
    by (auto simp: top_read_def split: if_splits list.splits option.splits sum.splits)
next
  case (Pull k req)
  then show ?thesis
    using assms by (auto simp: with_body_def pull_start_def split: if_splits option.splits)
next
  case (PullRead k)
  then show ?thesis
    using assms
    by (auto simp: with_body_def pull_read_def Let_def
        split: if_splits list.splits option.splits pull_pc.splits)
next
  case (Cancel k)
  then show ?thesis
    using assms by (auto simp: with_body_def drain_test_def split: if_splits)
next
  case (CancelPoll k)
  then show ?thesis
    using assms by (auto simp: with_body_def drain_test_def split: if_splits)
next
  case (CancelRead k)
  then show ?thesis
    using assms
    by (auto simp: with_body_def drain_test_def cancel_read_def split: if_splits list.splits)
qed (use assms in \<open>auto split: if_splits\<close>)

lemma counted_frame:
  assumes "counted s k p d"
    and "k < length (bodies s) \<Longrightarrow> k < length (bodies s') \<and> bodies s' ! k = bodies s ! k"
    and "length (bodies s) \<le> k \<Longrightarrow> length (bodies s') \<le> k"
    and "source s' \<noteq> [] \<Longrightarrow> source s \<noteq> []"
  shows "counted s' k p d"
proof (cases "k < length (bodies s)")
  case True
  then show ?thesis
    using assms(1) assms(2) [OF True] assms(4) by (auto simp: counted_def Let_def)
next
  case False
  then show ?thesis
    using assms(1) assms(3) by (simp add: counted_def)
qed

lemma counted_other:
  assumes "counted s k p d" and "k \<noteq> j" and "bodies s1 = bodies s"
    and "source s1 \<noteq> [] \<Longrightarrow> source s \<noteq> []"
  shows "counted (with_body j (s1, b')) k p d"
  using assms(2,3,4) by (intro counted_frame [OF assms(1)]) (simp_all add: with_body_def)

lemma counted_top:
  assumes "counted s k p d" and "e = TopPull \<or> e = TopPoll \<or> e = TopCancel" and "fire e s = Some s'"
  shows "counted s' k p d"
  using assms(2,3) by (intro counted_frame [OF assms(1)]) (auto split: if_splits)

lemma counted_TopRead:
  assumes "counted s k p d" and "fire TopRead s = Some s'"
  shows "counted s' k p d"
proof -
  from assms(2) have s': "s' = top_read s"
    by (auto split: if_splits)
  have src: "source s \<noteq> []" if "source s' \<noteq> []"
    using source_fire [OF assms(2)] that by auto
  have old: "k < length (bodies s') \<and> bodies s' ! k = bodies s ! k" if "k < length (bodies s)"
    using that
    by (auto simp: s' top_read_def nth_append split: list.splits option.splits sum.splits)
  show ?thesis
  proof (cases "k < length (bodies s')  \<and> \<not> k < length (bodies s)")
    case True
    then obtain h where b: "bodies s' = bodies s @ [new_body h]"
      by (auto simp: s' top_read_def split: list.splits option.splits sum.splits if_splits)
    with True have k: "k = length (bodies s)"
      by simp
    have z: "p = 0" "d = 0"
      using assms(1) True by (simp_all add: counted_def)
    show ?thesis
      using blocks_of_new_body [of h]
      by (simp add: counted_def b k z Let_def) (simp add: new_body_def)
  next
    case False
    then show ?thesis
      using old src by (intro counted_frame [OF assms(1)]) auto
  qed
qed

lemma counted_Pull:
  assumes "counted s k p d" and "fire (Pull j req) s = Some s'"
  shows "counted s' k p d"
proof -
  let ?b = "bodies s ! j"
  from assms(2) have g: "j < length (bodies s)"
    and s': "s' = with_body j (pull_start req s ?b)"
    by (auto split: if_splits)
  obtain s1 b' where r: "pull_start req s ?b = (s1, b')"
    by (cases "pull_start req s ?b")
  have f: "bodies s1 = bodies s" "source s1 \<noteq> [] \<longrightarrow> source s1 = source s"
    "i_left b' = i_left ?b" "cancel_at b' = cancel_at ?b" "body_size b' = body_size ?b"
    using r by (auto simp: pull_start_def split: option.splits if_splits)
  show ?thesis
  proof (cases "k = j")
    case False
    then show ?thesis
      unfolding s' r using f by (intro counted_other [OF assms(1)]) auto
  next
    case True
    then show ?thesis
      using assms(1) g f
      by (auto simp: s' r counted_def with_body_def Let_def blocks_of_def)
  qed
qed

lemma counted_PullRead:
  assumes "exclusive s" and "counted s k p d" and "fire (PullRead j) s = Some s'"
  shows "counted s' k (p + (if k = j then length (source s) - length (source s') else 0)) d"
proof -
  let ?b = "bodies s ! j"
  from assms(3) have g: "j < length (bodies s)" "pull_at ?b \<noteq> PullIdle"
    and s': "s' = with_body j (pull_read s ?b)"
    by (auto split: if_splits)
  have ok: "body_ok s j ?b"
    using assms(1) g(1) by (simp add: exclusive_def)
  have nc: "cancel_at ?b = NotCancelled \<or> cancel_at ?b = CancelWaiting"
    using ok g(2) by (cases "cancel_at ?b") (auto simp: body_ok_def)
  obtain s1 b' where r: "pull_read s ?b = (s1, b')"
    by (cases "pull_read s ?b")
  have f: "bodies s1 = bodies s" "cancel_at b' = cancel_at ?b" "body_size b' = body_size ?b"
    "source s1 = source s \<and> i_left b' = i_left ?b \<or>
     (\<exists>v. source s = v # source s1) \<and> i_left b' = i_left ?b - 1"
    using r
    by (auto simp: pull_read_def Let_def split: list.splits option.splits pull_pc.splits if_splits)
  have src: "source s' = source s1"
    by (simp add: s' r with_body_def)
  show ?thesis
  proof (cases "k = j")
    case False
    then show ?thesis
      unfolding s' r using f False
      by simp (intro counted_other [OF assms(2)], auto)
  next
    case True
    have c: "i_left ?b = blocks_of ?b - int p" "d = 0"
      using assms(2) g(1) nc by (auto simp: counted_def Let_def True)
    have "i_left b' = blocks_of b' - int (p + (length (source s) - length (source s1)))"
      using f(3,4) c(1) by (auto simp: blocks_of_def)
    then show ?thesis
      using g(1) nc f(2) c(2)
      by (auto simp: True src s' r counted_def with_body_def Let_def f(1))
  qed
qed

lemma counted_drain_test:
  assumes k: "k < length (bodies s)"
    and c: "cancel_at b = CancelWaiting \<and> d = 0 \<and> i_left b = blocks_of b - int p \<or>
            cancel_at b = CancelDraining \<and> i_left b = blocks_of b - int p - int d \<and> 0 < d \<and>
              0 \<le> i_left b"
    and s0: "bodies s0 = bodies s"
  shows "counted (with_body k (drain_test s0 b)) k p d"
  using assms by (auto simp: counted_def drain_test_def with_body_def Let_def blocks_of_def)

lemma counted_Cancel:
  assumes "exclusive s" and "counted s k p d" and "fire (Cancel j) s = Some s'"
  shows "counted s' k p d"
proof -
  let ?b = "bodies s ! j"
  let ?w = "?b\<lparr>stream := StreamClosed, cancel_at := CancelWaiting\<rparr>"
  from assms(3) have g: "j < length (bodies s)" "stream ?b = Readable"
    and s': "s' = with_body j (if lock ?b then (s, ?w) else drain_test s (?b\<lparr>stream := StreamClosed\<rparr>))"
    by (auto split: if_splits)
  have ok: "body_ok s j ?b"
    using assms(1) g(1) by (simp add: exclusive_def)
  have nc: "cancel_at ?b = NotCancelled"
    using ok g(2) by (simp add: body_ok_def)
  show ?thesis
  proof (cases "k = j")
    case False
    obtain s1 b' where r: "(if lock ?b then (s, ?w) else drain_test s (?b\<lparr>stream := StreamClosed\<rparr>)) = (s1, b')"
      by (cases "(if lock ?b then (s, ?w) else drain_test s (?b\<lparr>stream := StreamClosed\<rparr>))")
    then have "bodies s1 = bodies s" "source s1 = source s"
      by (auto simp: drain_test_def split: if_splits)
    then show ?thesis
      unfolding s' r using False by (intro counted_other [OF assms(2)]) auto
  next
    case True
    have c: "i_left ?b = blocks_of ?b - int p" "d = 0"
      using assms(2) g(1) nc by (auto simp: counted_def Let_def True)
    show ?thesis
    proof (cases "lock ?b")
      case l: True
      then show ?thesis
        using c g(1) by (simp add: s' True counted_def with_body_def Let_def blocks_of_def)
    next
      case l: False
      have "drain_test s (?b\<lparr>stream := StreamClosed\<rparr>) = drain_test s ?w"
        by (simp add: drain_test_def)
      moreover have "counted (with_body j (drain_test s ?w)) j p d"
        using c by (intro counted_drain_test [OF g(1)]) (simp_all add: blocks_of_def)
      ultimately show ?thesis
        by (simp add: s' l True)
    qed
  qed
qed

lemma counted_CancelPoll:
  assumes "counted s k p d" and "fire (CancelPoll j) s = Some s'"
  shows "counted s' k p d"
proof -
  let ?b = "bodies s ! j"
  from assms(2) have g: "j < length (bodies s)" "cancel_at ?b = CancelWaiting"
    and s': "s' = (if lock ?b then s else with_body j (drain_test s ?b))"
    by (auto split: if_splits)
  show ?thesis
  proof (cases "lock ?b")
    case True
    then show ?thesis
      using assms(1) by (simp add: s')
  next
    case l: False
    show ?thesis
    proof (cases "k = j")
      case False
      obtain s1 b' where r: "drain_test s ?b = (s1, b')"
        by (cases "drain_test s ?b")
      then have "bodies s1 = bodies s" "source s1 = source s"
        by (auto simp: drain_test_def split: if_splits)
      then have "counted (with_body j (s1, b')) k p d"
        using False by (intro counted_other [OF assms(1)]) auto
      then show ?thesis
        by (simp add: s' l r)
    next
      case True
      have c: "i_left ?b = blocks_of ?b - int p" "d = 0"
        using assms(1) g by (auto simp: counted_def Let_def True)
      have "counted (with_body j (drain_test s ?b)) j p d"
        using c g(2) by (intro counted_drain_test [OF g(1)]) simp_all
      then show ?thesis
        by (simp add: s' l True)
    qed
  qed
qed

lemma counted_CancelRead:
  assumes "counted s k p d" and "fire (CancelRead j) s = Some s'"
  shows "counted s' k p (d + (if k = j then length (source s) - length (source s') else 0))"
proof -
  let ?b = "bodies s ! j"
  from assms(2) have g: "j < length (bodies s)" "cancel_at ?b = CancelDraining"
    and s': "s' = with_body j (cancel_read s ?b)"
    by (auto split: if_splits)
  show ?thesis
  proof (cases "k = j")
    case False
    obtain s1 b' where r: "cancel_read s ?b = (s1, b')"
      by (cases "cancel_read s ?b")
    then have "bodies s1 = bodies s" "source s1 \<noteq> [] \<longrightarrow> source s \<noteq> []"
      by (auto simp: cancel_read_def drain_test_def split: if_splits list.splits)
    then have "counted (with_body j (s1, b')) k p d"
      using False by (intro counted_other [OF assms(1)]) auto
    then show ?thesis
      using False by (simp add: s' r)
  next
    case True
    have c: "i_left ?b = blocks_of ?b - int p - int d - 1" "0 \<le> i_left ?b"
      using assms(1) g by (auto simp: counted_def Let_def True)
    show ?thesis
    proof (cases "source s")
      case Nil
      then show ?thesis
        using c g
        by (simp add: s' True cancel_read_def counted_def with_body_def Let_def blocks_of_def)
    next
      case (Cons v vs)
      have "counted (with_body j (drain_test (s\<lparr>source := vs\<rparr>) ?b)) j p (d + 1)"
        using c g(2) by (intro counted_drain_test [OF g(1)]) simp_all
      moreover have "source s' = vs"
        by (simp add: s' cancel_read_def Cons with_body_def drain_test_def)
      ultimately show ?thesis
        by (simp add: s' True cancel_read_def Cons)
    qed
  qed
qed

section \<open>The body streams and the headers of the files\<close>

text \<open>
  No event changes the size of a body stream, and only the read of the top level that
  parses the header of a file adds one.
\<close>

lemma sizes_with_body:
  assumes "k < length (bodies s)" and "bodies s1 = bodies s"
    and "body_size b' = body_size (bodies s ! k)"
  shows "map body_size (bodies (with_body k (s1, b'))) = map body_size (bodies s)"
  using assms by (simp add: with_body_def map_update list_update_same_conv)

lemma sizes_fire:
  assumes "fire e s = Some s'"
  shows "map body_size (bodies s') =
    map body_size (bodies s) @ map (\<lambda>h. size_int (header_size h)) (file_header e s)"
proof (cases e)
  case TopRead
  then show ?thesis
    using assms
    by (auto simp: file_header_def top_read_def new_body_def
        split: if_splits list.splits option.splits sum.splits)
next
  case (Pull k req)
  obtain s1 b' where r: "pull_start req s (bodies s ! k) = (s1, b')"
    by (cases "pull_start req s (bodies s ! k)")
  then have "bodies s1 = bodies s" "body_size b' = body_size (bodies s ! k)"
    by (auto simp: pull_start_def split: option.splits if_splits)
  then show ?thesis
    using assms Pull r by (auto simp: file_header_def sizes_with_body split: if_splits)
next
  case (PullRead k)
  obtain s1 b' where r: "pull_read s (bodies s ! k) = (s1, b')"
    by (cases "pull_read s (bodies s ! k)")
  then have "bodies s1 = bodies s" "body_size b' = body_size (bodies s ! k)"
    by (auto simp: pull_read_def Let_def
        split: list.splits option.splits pull_pc.splits if_splits)
  then show ?thesis
    using assms PullRead r by (auto simp: file_header_def sizes_with_body split: if_splits)
next
  case (Cancel k)
  let ?b = "bodies s ! k"
  obtain s1 b' where r: "(if lock ?b
      then (s, ?b\<lparr>stream := StreamClosed, cancel_at := CancelWaiting\<rparr>)
      else drain_test s (?b\<lparr>stream := StreamClosed\<rparr>)) = (s1, b')"
    by (cases "(if lock ?b
      then (s, ?b\<lparr>stream := StreamClosed, cancel_at := CancelWaiting\<rparr>)
      else drain_test s (?b\<lparr>stream := StreamClosed\<rparr>))")
  then have "bodies s1 = bodies s" "body_size b' = body_size ?b"
    by (auto simp: drain_test_def split: if_splits)
  then show ?thesis
    using assms Cancel r by (auto simp: file_header_def sizes_with_body split: if_splits)
next
  case (CancelPoll k)
  obtain s1 b' where r: "drain_test s (bodies s ! k) = (s1, b')"
    by (cases "drain_test s (bodies s ! k)")
  then have "bodies s1 = bodies s" "body_size b' = body_size (bodies s ! k)"
    by (auto simp: drain_test_def split: if_splits)
  then show ?thesis
    using assms CancelPoll r by (auto simp: file_header_def sizes_with_body split: if_splits)
next
  case (CancelRead k)
  obtain s1 b' where r: "cancel_read s (bodies s ! k) = (s1, b')"
    by (cases "cancel_read s (bodies s ! k)")
  then have "bodies s1 = bodies s" "body_size b' = body_size (bodies s ! k)"
    by (auto simp: cancel_read_def drain_test_def split: list.splits if_splits)
  then show ?thesis
    using assms CancelRead r by (auto simp: file_header_def sizes_with_body split: if_splits)
qed (use assms in \<open>auto simp: file_header_def split: if_splits\<close>)

lemma sizes_run:
  "run es s = Some s' \<Longrightarrow>
   map body_size (bodies s') =
     map body_size (bodies s) @ map (\<lambda>h. size_int (header_size h)) (files es s)"
proof (induction es arbitrary: s)
  case Nil
  then show ?case by simp
next
  case (Cons e es)
  from Cons.prems obtain s1 where f: "fire e s = Some s1" and r: "run es s1 = Some s'"
    by (auto split: option.splits)
  show ?case
    using Cons.IH [OF r] sizes_fire [OF f] by (simp add: f)
qed

section \<open>Exclusivity over a run\<close>

lemma exclusive_fire:
  assumes "exclusive s" and "fire e s = Some s'"
  shows "exclusive s'"
proof (cases e)
  case TopPull
  then show ?thesis
    using exclusive_top [OF assms(1) _ assms(2)] by simp
next
  case TopPoll
  then show ?thesis
    using exclusive_top [OF assms(1) _ assms(2)] by simp
next
  case TopRead
  then show ?thesis
    using exclusive_TopRead [OF assms(1)] assms(2) by simp
next
  case TopCancel
  then show ?thesis
    using exclusive_top [OF assms(1) _ assms(2)] by simp
next
  case (Pull k req)
  then show ?thesis
    using exclusive_Pull [OF assms(1)] assms(2) by simp
next
  case (PullRead k)
  then show ?thesis
    using exclusive_PullRead [OF assms(1)] assms(2) by simp
next
  case (Cancel k)
  then show ?thesis
    using exclusive_Cancel [OF assms(1)] assms(2) by simp
next
  case (CancelPoll k)
  then show ?thesis
    using exclusive_CancelPoll [OF assms(1)] assms(2) by simp
next
  case (CancelRead k)
  then show ?thesis
    using exclusive_CancelRead [OF assms(1)] assms(2) by simp
qed

lemma exclusive_run: "exclusive s \<Longrightarrow> run es s = Some s' \<Longrightarrow> exclusive s'"
proof (induction es arbitrary: s)
  case Nil
  then show ?case by simp
next
  case (Cons e es)
  then show ?case
    by (auto split: option.splits dest: exclusive_fire)
qed

lemma counted_init: "counted (init vs ending) k 0 0"
  by (simp add: counted_def init_def)

lemma counted_fire:
  assumes "exclusive s" and "counted s k p d" and "fire e s = Some s'"
  shows "counted s' k
      (p + (if e = PullRead k then length (source s) - length (source s') else 0))
      (d + (if e = CancelRead k then length (source s) - length (source s') else 0))"
proof (cases e)
  case TopPull
  then show ?thesis
    using counted_top [OF assms(2) _ assms(3)] by simp
next
  case TopPoll
  then show ?thesis
    using counted_top [OF assms(2) _ assms(3)] by simp
next
  case TopRead
  then show ?thesis
    using counted_TopRead [OF assms(2)] assms(3) by simp
next
  case TopCancel
  then show ?thesis
    using counted_top [OF assms(2) _ assms(3)] by simp
next
  case (Pull j req)
  then show ?thesis
    using counted_Pull [OF assms(2)] assms(3) by simp
next
  case (PullRead j)
  then show ?thesis
    using counted_PullRead [OF assms(1,2), of j s'] assms(3) by auto
next
  case (Cancel j)
  then show ?thesis
    using counted_Cancel [OF assms(1,2)] assms(3) by simp
next
  case (CancelPoll j)
  then show ?thesis
    using counted_CancelPoll [OF assms(2)] assms(3) by simp
next
  case (CancelRead j)
  then show ?thesis
    using counted_CancelRead [OF assms(2), of j s'] assms(3) by auto
qed

lemma counted_run:
  "exclusive s \<Longrightarrow> counted s k p d \<Longrightarrow> run es s = Some s' \<Longrightarrow>
   counted s' k (p + pulled k es s) (d + drained k es s)"
proof (induction es arbitrary: s p d)
  case Nil
  then show ?case by simp
next
  case (Cons e es)
  from Cons.prems(3) obtain s1 where f: "fire e s = Some s1" and r: "run es s1 = Some s'"
    by (auto split: option.splits)
  have "counted s' k
      (p + (if e = PullRead k then length (source s) - length (source s1) else 0) +
        pulled k es s1)
      (d + (if e = CancelRead k then length (source s) - length (source s1) else 0) +
        drained k es s1)"
    using Cons.IH [OF exclusive_fire [OF Cons.prems(1) f] counted_fire [OF Cons.prems(1,2) f] r] .
  then show ?case
    by (simp add: f add.assoc)
qed

text \<open>
  C8. Exclusivity. In every state of every run of the decoder, whatever the archive and
  whatever the order in which the consumer and the platform act: at most one body
  stream is readable; when the top level has passed its wait and is about to read the
  block of the next header, every body stream is finished, closed after its last block
  or cancelled with the drain done; while a cancel waits or drains and blocks are
  left, \<^verbatim>\<open>header\<close> stays set, so the top level keeps waiting; with blocks left,
  \<^verbatim>\<open>header\<close> is clear only when every body stream is finished; a finished stream
  that was not cancelled has taken every block of its body from the source by the reads
  of its \<^verbatim>\<open>pull\<close>, and none by a drain; a stream whose \<^verbatim>\<open>cancel\<close> has
  returned has taken, by the reads of the drain loop, exactly the blocks of its body
  that the reads of its \<^verbatim>\<open>pull\<close> had left; and the body streams are those of
  the file headers parsed, in order, each with the size of its header, of which
  \<open>blocks_of\<close> is the number of blocks.
\<close>

theorem body_streams_exclusive:
  assumes "run es (init vs ending) = Some s"
  shows "(\<forall>j<length (bodies s). \<forall>k<length (bodies s).
            stream (bodies s ! j) = Readable \<and> stream (bodies s ! k) = Readable \<longrightarrow> j = k) \<and>
         (top_at s = TopReading \<and> source s \<noteq> [] \<longrightarrow> (\<forall>b\<in>set (bodies s). finished b)) \<and>
         (\<forall>b\<in>set (bodies s).
            (cancel_at b = CancelWaiting \<or> cancel_at b = CancelDraining) \<and> source s \<noteq> [] \<longrightarrow>
            current s \<noteq> None) \<and>
         (current s = None \<and> source s \<noteq> [] \<longrightarrow> (\<forall>b\<in>set (bodies s). finished b)) \<and>
         (\<forall>k<length (bodies s).
            source s \<noteq> [] \<and> finished (bodies s ! k) \<and> cancel_at (bodies s ! k) = NotCancelled \<longrightarrow>
            blocks_of (bodies s ! k) \<le> int (pulled k es (init vs ending)) \<and>
            drained k es (init vs ending) = 0) \<and>
         (\<forall>k<length (bodies s).
            source s \<noteq> [] \<and> cancel_at (bodies s ! k) = CancelDone \<longrightarrow>
            int (drained k es (init vs ending)) =
              max 0 (blocks_of (bodies s ! k) - int (pulled k es (init vs ending)))) \<and>
         map body_size (bodies s) =
           map (\<lambda>h. size_int (header_size h)) (files es (init vs ending))"
proof -
  have inv: "exclusive s"
    using exclusive_run [OF exclusive_init assms] .
  have ok: "body_ok s k (bodies s ! k)" if "k < length (bodies s)" for k
    using inv that by (simp add: exclusive_def)
  have cnt: "counted s k (pulled k es (init vs ending)) (drained k es (init vs ending))" for k
    using counted_run [OF exclusive_init counted_init assms, of k] by simp
  have 1: "j = k"
    if "j < length (bodies s)" "k < length (bodies s)"
      "stream (bodies s ! j) = Readable" "stream (bodies s ! k) = Readable" for j k
    using ok [OF that(1)] ok [OF that(2)] that(3,4) by (simp add: body_ok_def)
  have 4: "finished b"
    if c: "current s = None" and n: "source s \<noteq> []" and b: "b \<in> set (bodies s)" for b
  proof -
    obtain k where "k < length (bodies s)" "b = bodies s ! k"
      using b by (auto simp: in_set_conv_nth)
    then show ?thesis
      using ok [of k] n c by (simp add: body_ok_def)
  qed
  have 2: "finished b"
    if t: "top_at s = TopReading" and n: "source s \<noteq> []" and b: "b \<in> set (bodies s)" for b
  proof -
    have "current s = None"
      using inv t by (simp add: exclusive_def)
    then show ?thesis
      using 4 n b by simp
  qed
  have 3: "current s \<noteq> None"
    if b: "b \<in> set (bodies s)"
      and w: "cancel_at b = CancelWaiting \<or> cancel_at b = CancelDraining"
      and n: "source s \<noteq> []" for b
  proof
    assume c: "current s = None"
    have "finished b"
      using 4 [OF c n b] .
    then show False
      using w by (auto simp: finished_def)
  qed
  have 5: "blocks_of (bodies s ! k) \<le> int (pulled k es (init vs ending)) \<and>
      drained k es (init vs ending) = 0"
    if "k < length (bodies s)" "source s \<noteq> []" "finished (bodies s ! k)"
      "cancel_at (bodies s ! k) = NotCancelled" for k
    using cnt [of k] that by (simp add: counted_def Let_def finished_def)
  have 6: "int (drained k es (init vs ending)) =
      max 0 (blocks_of (bodies s ! k) - int (pulled k es (init vs ending)))"
    if "k < length (bodies s)" "source s \<noteq> []" "cancel_at (bodies s ! k) = CancelDone" for k
  proof (cases "0 < drained k es (init vs ending)")
    case True
    then show ?thesis
      using cnt [of k] that by (simp add: counted_def Let_def)
  next
    case False
    then show ?thesis
      using cnt [of k] that by (simp add: counted_def Let_def)
  qed
  have 7: "map body_size (bodies s) =
      map (\<lambda>h. size_int (header_size h)) (files es (init vs ending))"
    using sizes_run [OF assms] by (simp add: init_def)
  show ?thesis
    using 1 2 3 4 5 6 7 by blast
qed

theorem body_streams_exclusive_witness:
  "(case run [TopPull, TopRead, Cancel 0, CancelRead 0, TopPull]
      (init [projr (header_block 0
          (File \<lparr>pathname = PathString (str ''b.txt''), options = None, size_bytes = Num 512,
                 sizeExtension = False, iterable = [replicate 512 7]\<rparr>)
          [] [98, 46, 116, 120, 116]), replicate 512 7, replicate 512 0] None) of
      None \<Rightarrow> False
    | Some s \<Rightarrow>
        top_at s = TopReading \<and> current s = None \<and> source s = [replicate 512 0] \<and>
        map stream (bodies s) = [StreamClosed] \<and> map cancel_at (bodies s) = [CancelDone] \<and>
        map body_size (bodies s) = [512] \<and> map blocks_of (bodies s) = [1] \<and>
        (\<forall>b\<in>set (bodies s). finished b)) \<and>
   pulled 0 [TopPull, TopRead, Cancel 0, CancelRead 0, TopPull]
      (init [projr (header_block 0
          (File \<lparr>pathname = PathString (str ''b.txt''), options = None, size_bytes = Num 512,
                 sizeExtension = False, iterable = [replicate 512 7]\<rparr>)
          [] [98, 46, 116, 120, 116]), replicate 512 7, replicate 512 0] None) = 0 \<and>
   drained 0 [TopPull, TopRead, Cancel 0, CancelRead 0, TopPull]
      (init [projr (header_block 0
          (File \<lparr>pathname = PathString (str ''b.txt''), options = None, size_bytes = Num 512,
                 sizeExtension = False, iterable = [replicate 512 7]\<rparr>)
          [] [98, 46, 116, 120, 116]), replicate 512 7, replicate 512 0] None) = 1"
proof -
  let ?f = "\<lparr>pathname = PathString (str ''b.txt''), options = None, size_bytes = Num 512,
             sizeExtension = False, iterable = [replicate 512 7]\<rparr>"
  let ?es = "[TopPull, TopRead, Cancel 0, CancelRead 0, TopPull]"
  obtain h hdr where h: "header_block 0 (File ?f) [] [98, 46, 116, 120, 116] = Inr h"
    and hdr: "parse_header h = Inr hdr"
    and tf: "header_typeflag hdr = str ''0''" and sz: "header_size hdr = Num 512"
    by (rule header_of_512_file)
  let ?init = "init [h, replicate 512 7, replicate 512 0] None"
  let ?b = "\<lparr>i_left = - 1, body_size = 512, lock = False, leftover = [], stream = StreamClosed,
             pull_at = PullIdle, cancel_at = CancelDone\<rparr>"
  let ?s = "\<lparr>current = None, source = [replicate 512 0], source_end = None,
             cancelled = False, top_stream = Readable, top_at = TopReading, bodies = [?b]\<rparr>"
  note ev = init_def top_read_def hdr tf sz new_body_def with_body_def drain_test_def
    cancel_read_def block_count_def size_int_def
  have r: "run ?es ?init = Some ?s"
    by (simp add: ev)
  note t = body_streams_exclusive [OF r]
  have fin: "\<forall>b\<in>set (bodies ?s). finished b"
    by (rule mp [OF conjunct1 [OF conjunct2 [OF t]]]) simp
  have p: "pulled 0 ?es ?init = 0"
    by (simp add: ev)
  have "int (drained 0 ?es ?init) = max 0 (blocks_of (bodies ?s ! 0) - int (pulled 0 ?es ?init))"
    by (rule mp [OF spec [OF conjunct1 [OF conjunct2 [OF conjunct2 [OF conjunct2 [OF
        conjunct2 [OF conjunct2 [OF t]]]]]], of 0, THEN mp]]) simp_all
  then have d: "drained 0 ?es ?init = 1"
    unfolding p by (simp add: blocks_of_def del: drained.simps)
  have q: "projr (header_block 0 (File ?f) [] [98, 46, 116, 120, 116]) = h"
    by (simp add: h)
  show ?thesis
    unfolding q r option.case
  proof (intro conjI)
    show "\<forall>b\<in>set (bodies ?s). finished b"
      by (rule fin)
    show "drained 0 ?es ?init = 1"
      by (rule d)
    show "pulled 0 ?es ?init = 0"
      by (rule p)
  qed (simp_all add: blocks_of_def)
qed

section \<open>Properties of the encoder's guards\<close>

text \<open>
  C5. Validation of the options. The claim fails: \<^verbatim>\<open>validTarStreamOptions\<close> is
  true when a field is found wrong, and the encoder throws when it is false. A bag whose
  only field is the octal mode 755 is refused with \<^verbatim>\<open>Invalid Options Provided!\<close>
  before any byte is emitted, and a bag whose mode is \<^verbatim>\<open>rwx\<close> passes the guard.
\<close>

theorem valid_options_rejected:
  "TarStream clock
     [Dir \<lparr>pathname = PathString (str ''d''),
           options = Some \<lparr>mode = Some (str ''755''), uid = None, gid = None, mtime = None,
                           uname = None, gname = None, devmajor = None, devminor = None\<rparr>\<rparr>]
     = ([], Errored InvalidOptions) \<and>
   \<not> options_rejected
     (Dir \<lparr>pathname = PathString (str ''d''),
           options = Some \<lparr>mode = Some (str ''rwx''), uid = None, gid = None, mtime = None,
                           uname = None, gname = None, devmajor = None, devminor = None\<rparr>\<rparr>)"
  by (simp add: TarStream_def entry_def options_rejected_def validTarStreamOptions_def
      truthy_str_def truthy_num_def re_octal_def str_def)

section \<open>The encoder and the clock\<close>

lemma header_fields_clock:
  "opt_field mtime c \<noteq> None \<Longrightarrow> header_fields t1 c = header_fields t2 c"
  by (auto simp: header_fields_def)

lemma entry_clock:
  assumes "opt_field mtime c \<noteq> None"
  shows "entry t1 paths c = entry t2 paths c"
proof -
  have hf: "header_fields t1 c = header_fields t2 c"
    by (rule header_fields_clock [OF assms])
  show ?thesis
    unfolding entry_def header_block_def header_draft_def hf by (rule refl)
qed

lemma gen_clock:
  "\<forall>c\<in>set chunks. opt_field mtime c \<noteq> None \<Longrightarrow>
   gen clock1 k1 paths chunks = gen clock2 k2 paths chunks"
proof (induction chunks arbitrary: k1 k2 paths)
  case Nil
  show ?case
    by simp
next
  case (Cons c chunks)
  have e: "entry (clock1 k1) paths c = entry (clock2 k2) paths c"
    using Cons.prems by (simp add: entry_clock)
  have r: "gen clock1 (Suc k1) ps chunks = gen clock2 (Suc k2) ps chunks" for ps
    using Cons.prems by (intro Cons.IH) simp
  show ?case
    by (simp add: e r split: prod.splits step.splits)
qed

text \<open>
  C10. Determinism under a pinned modification time. The encoder's output is a function
  of its inputs and of the clock alone; when every input carries options with an
  \<open>mtime\<close>, two runs with any two clocks yield the same chunks and end the same way.
\<close>

theorem TarStream_pinned_mtime:
  "\<forall>c\<in>set chunks. opt_field mtime c \<noteq> None \<Longrightarrow>
   TarStream clock1 chunks = TarStream clock2 chunks"
  by (simp add: TarStream_def gen_clock [of chunks clock1 0 _ clock2 0])

theorem TarStream_pinned_mtime_witness:
  "TarStream (\<lambda>k. 0)
     [Dir \<lparr>pathname = PathString (str ''d''),
           options = Some \<lparr>mode = None, uid = None, gid = None, mtime = Some (Num 0),
                           uname = Some (str ''root''), gname = None, devmajor = None,
                           devminor = None\<rparr>\<rparr>]
   = TarStream (\<lambda>k. 1700000000000 + int k)
     [Dir \<lparr>pathname = PathString (str ''d''),
           options = Some \<lparr>mode = None, uid = None, gid = None, mtime = Some (Num 0),
                           uname = Some (str ''root''), gname = None, devmajor = None,
                           devminor = None\<rparr>\<rparr>]"
  using TarStream_pinned_mtime
    [of "[Dir \<lparr>pathname = PathString (str ''d''),
           options = Some \<lparr>mode = None, uid = None, gid = None, mtime = Some (Num 0),
                           uname = Some (str ''root''), gname = None, devmajor = None,
                           devminor = None\<rparr>\<rparr>]" "\<lambda>k. 0" "\<lambda>k. 1700000000000 + int k"]
  by (simp add: opt_field_def)

end
